theory Spec2Isabelle
  imports Main "HOL-Library.Sublist"
begin

section \<open>Data model of the cleanup cog\<close>

text \<open>
  The cog \<^verbatim>\<open>redbot/cogs/cleanup/cleanup.py\<close> works on objects of the chat library.
  Only the attributes the cog reads are kept. A user carries its id, its name, the
  \<^verbatim>\<open>bot\<close> flag of the account and whether the object is a guild member
  (\<^verbatim>\<open>type(author) is discord.Member\<close>). Two users are compared by id, as the
  library does.
\<close>

record user =
  user_id :: nat
  user_name :: string
  user_bot :: bool
  is_member :: bool

text \<open>
  A message: \<^verbatim>\<open>created_at\<close> is a point in time counted in seconds; the difference of two
  of them is a \<^verbatim>\<open>timedelta\<close>, whose \<^verbatim>\<open>days\<close> attribute is the floor of the
  difference divided by one day (negative differences round down, as \<open>div\<close> on \<open>int\<close> does).
\<close>

record message =
  msg_id :: nat
  author :: user
  content :: string
  created_at :: int

definition days :: "int \<Rightarrow> int" where
  "days delta = delta div 86400"

text \<open>
  A text channel. \<^verbatim>\<open>channel.history(limit=, before=, after=)\<close> and
  \<^verbatim>\<open>channel.get_message(id)\<close> are calls into the chat library: they are fields of the
  channel object, so every statement below holds for whatever the library answers.
  A limit of \<open>None\<close> is Python's \<^verbatim>\<open>limit=None\<close>.
\<close>

record channel =
  channel_id :: nat
  channel_name :: string
  channel_str :: string
  history :: "nat option \<Rightarrow> message option \<Rightarrow> message option \<Rightarrow> message list"
  get_message :: "int \<Rightarrow> message option"

text \<open>Texts the cog sends to the channel, before translation.\<close>

datatype notice =
  AreYouSure int
| Cancelled
| BotAccountsOnly
| MessageNotFound

text \<open>
  The audit line each command hands to \<^verbatim>\<open>log.info\<close>: one constructor for each format
  string, with the arguments of \<^verbatim>\<open>format\<close> in their order.
\<close>

datatype reason =
  ReasonText string nat nat string nat
| ReasonUser string nat nat string int string
| ReasonAfter string nat nat string
| ReasonMessages string nat int string
| ReasonBot string nat nat string
| ReasonSelf string nat nat string

text \<open>
  What a run does to the outside world, in the order it happens: the messages sent, the
  wait for a reply, each call of \<^verbatim>\<open>channel.history\<close> with its arguments, each message
  the \<^verbatim>\<open>async for\<close> binds, the lookup of a message by id, the audit line, and the call
  of one of the two deletion executors with the batch it receives.
\<close>

datatype event =
  Send notice
| WaitFor
| History "nat option" "message option" "message option"
| Iterated message
| GetMessage int
| LogInfo reason
| MassPurge "message list"
| SlowDeletion "message list"

section \<open>get_messages_for_deletion\<close>

text \<open>
  The local variables of \<^verbatim>\<open>get_messages_for_deletion\<close>: \<open>to_delete\<close>, \<open>too_old\<close>, the loop
  variable \<open>message\<close> (\<open>None\<close> until the \<^verbatim>\<open>async for\<close> binds it) and the cursor
  \<^verbatim>\<open>before\<close> (\<open>before_cur\<close>); with them, whether the \<^verbatim>\<open>async for\<close> was left by
  \<^verbatim>\<open>break\<close>, and the events so far.
\<close>

record collect_state =
  to_delete :: "message list"
  too_old :: bool
  message_var :: "message option"
  before_cur :: "message option"
  broke :: bool
  trace :: "event list"

text \<open>
  The body of the \<^verbatim>\<open>async for\<close> over one page (lines 59 to 69). \<open>cm\<close> is
  \<^verbatim>\<open>ctx.message\<close>. \<^verbatim>\<open>not number\<close> is \<open>number = 0\<close> and a bare \<^verbatim>\<open>number\<close> is
  \<open>number \<noteq> 0\<close>.
\<close>

fun scan_page ::
  "message \<Rightarrow> int \<Rightarrow> (message \<Rightarrow> bool) \<Rightarrow> message list \<Rightarrow> collect_state \<Rightarrow> collect_state"
where
  "scan_page cm number check [] st = st"
| "scan_page cm number check (m # ms) st =
     (let st1 = st\<lparr>message_var := Some m, trace := trace st @ [Iterated m]\<rparr> in
      if (number = 0 \<or> int (length (to_delete st)) - 1 < number) \<and> check m
           \<and> days (created_at cm - created_at m) < 14
      then scan_page cm number check ms (st1\<lparr>to_delete := to_delete st @ [m]\<rparr>)
      else if days (created_at cm - created_at m) \<ge> 14
      then st1\<lparr>too_old := True, broke := True\<rparr>
      else if number \<noteq> 0 \<and> int (length (to_delete st)) \<ge> number
      then st1\<lparr>broke := True\<rparr>
      else scan_page cm number check ms st1)"

text \<open>
  The \<^verbatim>\<open>while\<close> loop (lines 57 to 73). Nothing in the cog bounds the number of pages, so
  the loop is a partial function: \<open>None\<close> is a run that never leaves the loop.
\<close>

partial_function (option) collect_loop ::
  "message \<Rightarrow> channel \<Rightarrow> int \<Rightarrow> (message \<Rightarrow> bool) \<Rightarrow> nat option \<Rightarrow> message option
     \<Rightarrow> collect_state \<Rightarrow> collect_state option"
where
  "collect_loop cm chan number check limit after st =
     (if \<not> too_old st \<and> int (length (to_delete st)) - 1 < number
      then (let page = history chan limit (before_cur st) after;
                st' = scan_page cm number check page
                        (st\<lparr>message_var := None, broke := False,
                            trace := trace st @ [History limit (before_cur st) after]\<rparr>)
            in if message_var st' = None then Some st'
               else collect_loop cm chan number check limit after
                      (st'\<lparr>before_cur := message_var st'\<rparr>))
      else Some st)"

declare collect_loop.simps [code]

text \<open>The default of the parameter \<^verbatim>\<open>check\<close>: \<^verbatim>\<open>lambda x: True\<close>.\<close>

definition default_check :: "message \<Rightarrow> bool" where
  "default_check x = True"

definition init_state :: "message option \<Rightarrow> collect_state" where
  "init_state bef =
     \<lparr>to_delete = [], too_old = False, message_var = None, before_cur = bef,
      broke = False, trace = []\<rparr>"

text \<open>The run of the function: the final values of its variables and its events.\<close>

definition collect_run ::
  "message \<Rightarrow> channel \<Rightarrow> int \<Rightarrow> (message \<Rightarrow> bool) \<Rightarrow> nat option \<Rightarrow> message option
     \<Rightarrow> message option \<Rightarrow> collect_state option"
where
  "collect_run cm chan number check limit bef after =
     collect_loop cm chan number check limit after (init_state bef)"

text \<open>The value the function returns: \<^verbatim>\<open>to_delete\<close>.\<close>

definition get_messages_for_deletion ::
  "message \<Rightarrow> channel \<Rightarrow> int \<Rightarrow> (message \<Rightarrow> bool) \<Rightarrow> nat option \<Rightarrow> message option
     \<Rightarrow> message option \<Rightarrow> message list option"
where
  "get_messages_for_deletion cm chan number check limit bef after =
     map_option to_delete (collect_run cm chan number check limit bef after)"

text \<open>
  A channel backed by a list of messages, newest first, for concrete runs: the page is
  made of the messages with an id below \<open>before\<close> and above \<open>after\<close>, cut to \<open>limit\<close>.
  When \<open>after\<close> is given the library walks upwards from it, oldest first.
\<close>

definition list_history ::
  "message list \<Rightarrow> nat option \<Rightarrow> message option \<Rightarrow> message option \<Rightarrow> message list"
where
  "list_history msgs limit bef aft =
     (let sel = filter (\<lambda>m. (case bef of None \<Rightarrow> True | Some b \<Rightarrow> msg_id m < msg_id b)
                          \<and> (case aft of None \<Rightarrow> True | Some a \<Rightarrow> msg_id a < msg_id m)) msgs;
          ordered = (if aft = None then sel else rev sel)
      in case limit of None \<Rightarrow> ordered | Some n \<Rightarrow> take n ordered)"

definition list_channel :: "message list \<Rightarrow> channel" where
  "list_channel msgs =
     \<lparr>channel_id = 1, channel_name = ''general'', channel_str = ''general'',
      history = list_history msgs,
      get_message = (\<lambda>i. find (\<lambda>m. int (msg_id m) = i) msgs)\<rparr>"

definition mk_user :: "nat \<Rightarrow> user" where
  "mk_user i = \<lparr>user_id = i, user_name = ''u'', user_bot = False, is_member = True\<rparr>"

definition mk_message :: "nat \<Rightarrow> nat \<Rightarrow> string \<Rightarrow> int \<Rightarrow> message" where
  "mk_message i a c t = \<lparr>msg_id = i, author = mk_user a, content = c, created_at = t\<rparr>"


section \<open>The confirmation prompt\<close>

text \<open>
  What the cog reads from the bot and from Python besides the channel:
  \<^item> \<^verbatim>\<open>self.bot.user\<close>;
  \<^item> \<^verbatim>\<open>self.bot.get_prefix(message)\<close>, which answers one string or a list of strings;
  \<^item> \<^verbatim>\<open>bool(self.bot.get_command(name))\<close>;
  \<^item> the messages that arrive after \<^verbatim>\<open>wait_for\<close> was called, in their order
    (an endless sequence: the chat never closes);
  \<^item> \<^verbatim>\<open>MemberConverter().convert(ctx, user)\<close>, \<open>None\<close> when it raises
    \<^verbatim>\<open>BadArgument\<close>;
  \<^item> \<^verbatim>\<open>int(user)\<close>, \<open>None\<close> when it raises \<^verbatim>\<open>ValueError\<close>;
  \<^item> \<^verbatim>\<open>re.compile(pattern)\<close>, \<open>None\<close> when it raises, and otherwise the function
    \<^verbatim>\<open>lambda c: bool(compiled.match(c))\<close>.
\<close>

datatype prefixes = PrefixStr string | PrefixList "string list"

record env =
  bot_user :: user
  get_prefix :: "message \<Rightarrow> prefixes"
  get_command :: "string \<Rightarrow> bool"
  inbox :: "nat \<Rightarrow> message"
  member_convert :: "string \<Rightarrow> user option"
  py_int :: "string \<Rightarrow> int option"
  re_compile :: "string \<Rightarrow> (string \<Rightarrow> bool) option"

text \<open>
  The invocation context: \<^verbatim>\<open>ctx.message\<close>, \<^verbatim>\<open>ctx.channel\<close> (also
  \<^verbatim>\<open>ctx.message.channel\<close>) and
  \<^verbatim>\<open>channel.permissions_for(ctx.guild.me).manage_messages\<close>. \<^verbatim>\<open>ctx.author\<close> is
  \<^verbatim>\<open>ctx.message.author\<close>.
\<close>

record red_context =
  ctx_message :: message
  ctx_channel :: channel
  me_manage_messages :: bool

definition ctx_author :: "red_context \<Rightarrow> user" where
  "ctx_author ctx = author (ctx_message ctx)"

datatype exc = BadArgument | NameError | ReError

datatype outcome = Returned | Raised exc

type_synonym run = "outcome \<times> event list"

text \<open>
  \<^verbatim>\<open>str.lower\<close> on the letters A to Z; no other character has the lower case \<open>y\<close>,
  which is all the cog asks of the result.
\<close>

definition lower_char :: "char \<Rightarrow> char" where
  "lower_char c =
     (let n = (of_char c :: nat) in if 65 \<le> n \<and> n \<le> 90 then char_of (n + 32) else c)"

definition lower :: "string \<Rightarrow> string" where
  "lower s = map lower_char s"

text \<open>
  \<^verbatim>\<open>ctx.bot.wait_for('message', check=author_check)\<close>: the first message from position
  \<open>n\<close> on that passes the check. The call is made without a \<^verbatim>\<open>timeout\<close>, so it
  returns only when such a message arrives: \<open>None\<close> is a wait that never ends.
\<close>

partial_function (option) wait_for ::
  "(message \<Rightarrow> bool) \<Rightarrow> (nat \<Rightarrow> message) \<Rightarrow> nat \<Rightarrow> message option"
where
  "wait_for check msgs n =
     (if check (msgs n) then Some (msgs n) else wait_for check msgs (Suc n))"

declare wait_for.simps [code]

definition author_check :: "red_context \<Rightarrow> message \<Rightarrow> bool" where
  "author_check ctx m = (user_id (author m) = user_id (ctx_author ctx))"

text \<open>\<^verbatim>\<open>check_100_plus\<close> (lines 21 to 38): the answer and the events of the call.\<close>

definition check_100_plus :: "env \<Rightarrow> red_context \<Rightarrow> int \<Rightarrow> (bool \<times> event list) option" where
  "check_100_plus e ctx number =
     (case wait_for (author_check ctx) (inbox e) 0 of
        None \<Rightarrow> None
      | Some response \<Rightarrow>
          if prefix ''y'' (lower (content response))
          then Some (True, [Send (AreYouSure number), WaitFor])
          else Some (False, [Send (AreYouSure number), WaitFor, Send Cancelled]))"

text \<open>
  The four lines every counted subcommand starts with:
  \<^verbatim>\<open>if number > 100: cont = await self.check_100_plus(ctx, number); if not cont: return\<close>.
  The result is \<open>cont\<close> (true when the prompt is skipped) and the events.
\<close>

definition confirm :: "env \<Rightarrow> red_context \<Rightarrow> int \<Rightarrow> (bool \<times> event list) option" where
  "confirm e ctx number =
     (if number > 100 then check_100_plus e ctx number else Some (True, []))"

text \<open>The last lines of the counted subcommands: the executor chosen by \<^verbatim>\<open>is_bot\<close>.\<close>

definition delete_with :: "bool \<Rightarrow> message list \<Rightarrow> event" where
  "delete_with bulk batch = (if bulk then MassPurge batch else SlowDeletion batch)"

section \<open>The subcommands\<close>

text \<open>
  In the predicates below \<^verbatim>\<open>text in m.content\<close> is \<open>sublist\<close> and
  \<^verbatim>\<open>m == ctx.message\<close> is equality of the two message records.
\<close>

subsection \<open>text\<close>

definition text_check :: "red_context \<Rightarrow> string \<Rightarrow> message \<Rightarrow> bool" where
  "text_check ctx txt m =
     (if sublist txt (content m) then True
      else if m = ctx_message ctx then True
      else False)"

definition text_cmd :: "env \<Rightarrow> red_context \<Rightarrow> string \<Rightarrow> int \<Rightarrow> run option" where
  "text_cmd e ctx txt number =
     (let channel = ctx_channel ctx; author = ctx_author ctx; is_bot = user_bot (bot_user e) in
      case confirm e ctx number of
        None \<Rightarrow> None
      | Some (cont, ev) \<Rightarrow>
          if \<not> cont then Some (Returned, ev)
          else (case collect_run (ctx_message ctx) channel number (text_check ctx txt)
                       (Some 1000) (Some (ctx_message ctx)) None of
                  None \<Rightarrow> None
                | Some st \<Rightarrow>
                    Some (Returned, ev @ trace st @
                      [LogInfo (ReasonText (user_name author) (user_id author)
                                 (length (to_delete st)) txt (channel_id channel)),
                       delete_with is_bot (to_delete st)])))"

subsection \<open>user\<close>

definition user_check :: "red_context \<Rightarrow> int \<Rightarrow> message \<Rightarrow> bool" where
  "user_check ctx uid m =
     (if int (user_id (author m)) = uid then True
      else if m = ctx_message ctx then True
      else False)"

text \<open>
  The \<^verbatim>\<open>try\<close> of lines 134 to 142: the local \<open>member\<close> (\<open>None\<close> while it is not bound)
  and \<open>_id\<close>, or the \<^verbatim>\<open>BadArgument\<close> raised.
\<close>

definition resolve_user :: "env \<Rightarrow> string \<Rightarrow> exc + (user option \<times> int)" where
  "resolve_user e usr =
     (case member_convert e usr of
        Some member \<Rightarrow> Inr (Some member, int (user_id member))
      | None \<Rightarrow>
          (case py_int e usr of
             Some i \<Rightarrow> Inr (None, i)
           | None \<Rightarrow> Inl BadArgument))"

text \<open>
  Reading the local \<open>member\<close> in \<^verbatim>\<open>member or '???'\<close>: an unbound local raises
  (\<^verbatim>\<open>UnboundLocalError\<close>, a \<^verbatim>\<open>NameError\<close>); a bound member is true and is formatted.
\<close>

definition member_or :: "user option \<Rightarrow> exc + string" where
  "member_or member = (case member of None \<Rightarrow> Inl NameError | Some u \<Rightarrow> Inr (user_name u))"

definition user_cmd :: "env \<Rightarrow> red_context \<Rightarrow> string \<Rightarrow> int \<Rightarrow> run option" where
  "user_cmd e ctx usr number =
     (case resolve_user e usr of
        Inl err \<Rightarrow> Some (Raised err, [])
      | Inr (member, uid) \<Rightarrow>
         (let channel = ctx_channel ctx; author = ctx_author ctx;
              is_bot = user_bot (bot_user e) in
          case confirm e ctx number of
            None \<Rightarrow> None
          | Some (cont, ev) \<Rightarrow>
              if \<not> cont then Some (Returned, ev)
              else (case collect_run (ctx_message ctx) channel number (user_check ctx uid)
                           (Some 1000) (Some (ctx_message ctx)) None of
                      None \<Rightarrow> None
                    | Some st \<Rightarrow>
                        (case member_or member of
                           Inl err \<Rightarrow> Some (Raised err, ev @ trace st)
                         | Inr shown \<Rightarrow>
                             Some (Returned, ev @ trace st @
                               [LogInfo (ReasonUser (user_name author) (user_id author)
                                          (length (to_delete st)) shown uid
                                          (channel_name channel)),
                                delete_with is_bot (to_delete st)])))))"

subsection \<open>after\<close>

definition after_cmd :: "env \<Rightarrow> red_context \<Rightarrow> int \<Rightarrow> run option" where
  "after_cmd e ctx message_id =
     (let channel = ctx_channel ctx; author = ctx_author ctx;
          is_bot = user_bot (bot_user e) in
      if \<not> is_bot then Some (Returned, [Send BotAccountsOnly])
      else (case get_message channel message_id of
              None \<Rightarrow> Some (Returned, [GetMessage message_id, Send MessageNotFound])
            | Some after \<Rightarrow>
                (case collect_run (ctx_message ctx) channel 0 default_check None None
                        (Some after) of
                   None \<Rightarrow> None
                 | Some st \<Rightarrow>
                     Some (Returned, GetMessage message_id # trace st @
                       [LogInfo (ReasonAfter (user_name author) (user_id author)
                                  (length (to_delete st)) (channel_name channel)),
                        MassPurge (to_delete st)]))))"

subsection \<open>messages\<close>

definition messages_cmd :: "env \<Rightarrow> red_context \<Rightarrow> int \<Rightarrow> run option" where
  "messages_cmd e ctx number =
     (let channel = ctx_channel ctx; author = ctx_author ctx;
          is_bot = user_bot (bot_user e) in
      case confirm e ctx number of
        None \<Rightarrow> None
      | Some (cont, ev) \<Rightarrow>
          if \<not> cont then Some (Returned, ev)
          else (case collect_run (ctx_message ctx) channel number default_check
                       (Some 1000) (Some (ctx_message ctx)) None of
                  None \<Rightarrow> None
                | Some st \<Rightarrow>
                    Some (Returned, ev @ trace st @
                      [LogInfo (ReasonMessages (user_name author) (user_id author)
                                 number (channel_name channel)),
                       delete_with is_bot (to_delete st)])))"

subsection \<open>bot\<close>

text \<open>
  Lines 263 to 269: one prefix becomes a list, and \<^verbatim>\<open>prefixes.remove('')\<close> takes out
  the first empty prefix.
\<close>

definition server_prefixes :: "env \<Rightarrow> red_context \<Rightarrow> string list" where
  "server_prefixes e ctx =
     (let pfxs = (case get_prefix e (ctx_message ctx) of
                        PrefixStr s \<Rightarrow> [s] | PrefixList ps \<Rightarrow> ps)
      in if [] \<in> set pfxs then remove1 [] pfxs else pfxs)"

text \<open>
  \<^verbatim>\<open>discord.utils.find(m.content.startswith, prefixes)\<close>: the first element of the list,
  in the order of the list, that the content starts with.
\<close>

definition find_prefix :: "string list \<Rightarrow> message \<Rightarrow> string option" where
  "find_prefix pfxs m = find (\<lambda>p. prefix p (content m)) pfxs"

text \<open>\<^verbatim>\<open>m.content[len(p):].split(' ')[0]\<close>\<close>

definition cmd_name :: "string \<Rightarrow> message \<Rightarrow> string" where
  "cmd_name p m = takeWhile (\<lambda>c. c \<noteq> CHR '' '') (drop (length p) (content m))"

definition bot_check :: "env \<Rightarrow> red_context \<Rightarrow> string list \<Rightarrow> message \<Rightarrow> bool" where
  "bot_check e ctx pfxs m =
     (if user_id (author m) = user_id (bot_user e) then True
      else if m = ctx_message ctx then True
      else (case find_prefix pfxs m of
              Some p \<Rightarrow> if p \<noteq> [] \<and> length p > 0 then get_command e (cmd_name p m) else False
            | None \<Rightarrow> False))"

definition cleanup_bot :: "env \<Rightarrow> red_context \<Rightarrow> int \<Rightarrow> run option" where
  "cleanup_bot e ctx number =
     (let channel = ctx_channel ctx; author = author (ctx_message ctx);
          is_bot = user_bot (bot_user e) in
      case confirm e ctx number of
        None \<Rightarrow> None
      | Some (cont, ev) \<Rightarrow>
          if \<not> cont then Some (Returned, ev)
          else (let pfxs = server_prefixes e ctx in
                case collect_run (ctx_message ctx) channel number (bot_check e ctx pfxs)
                       (Some 1000) (Some (ctx_message ctx)) None of
                  None \<Rightarrow> None
                | Some st \<Rightarrow>
                    Some (Returned, ev @ trace st @
                      [LogInfo (ReasonBot (user_name author) (user_id author)
                                 (length (to_delete st)) (channel_name channel)),
                       delete_with is_bot (to_delete st)])))"

subsection \<open>self\<close>

text \<open>
  Lines 324 to 338: the content test chosen by the optional pattern, or the error of
  \<^verbatim>\<open>re.compile\<close>. An absent and an empty pattern are both false in Python.
\<close>

definition use_re :: "string option \<Rightarrow> bool" where
  "use_re match_pattern =
     (case match_pattern of
        None \<Rightarrow> False
      | Some p \<Rightarrow> p \<noteq> [] \<and> prefix ''r('' p \<and> suffix '')'' p)"

definition match_all :: "string \<Rightarrow> bool" where
  "match_all c = True"

definition content_match :: "env \<Rightarrow> string option \<Rightarrow> exc + (string \<Rightarrow> bool)" where
  "content_match e match_pattern =
     (if use_re match_pattern
      then (case re_compile e (tl (the match_pattern)) of
              None \<Rightarrow> Inl ReError
            | Some match_re \<Rightarrow> Inr match_re)
      else (case match_pattern of
              Some p \<Rightarrow> if p \<noteq> [] then Inr (sublist p) else Inr match_all
            | None \<Rightarrow> Inr match_all))"

definition self_check :: "env \<Rightarrow> (string \<Rightarrow> bool) \<Rightarrow> message \<Rightarrow> bool" where
  "self_check e matches m =
     (if user_id (author m) \<noteq> user_id (bot_user e) then False
      else if matches (content m) then True
      else False)"

definition cleanup_self :: "env \<Rightarrow> red_context \<Rightarrow> int \<Rightarrow> string option \<Rightarrow> run option" where
  "cleanup_self e ctx number match_pattern =
     (let channel = ctx_channel ctx; author = author (ctx_message ctx);
          is_bot = user_bot (bot_user e) in
      case confirm e ctx number of
        None \<Rightarrow> None
      | Some (cont, ev) \<Rightarrow>
          if \<not> cont then Some (Returned, ev)
          else (let can_mass_purge = (if is_member author then me_manage_messages ctx else False) in
                case content_match e match_pattern of
                  Inl err \<Rightarrow> Some (Raised err, ev)
                | Inr matches \<Rightarrow>
                   (case collect_run (ctx_message ctx) channel number (self_check e matches)
                           (Some 1000) (Some (ctx_message ctx)) None of
                      None \<Rightarrow> None
                    | Some st \<Rightarrow>
                       (let batch = (if user_id author = user_id (bot_user e)
                                     then to_delete st @ [ctx_message ctx] else to_delete st);
                            shown = (if channel_name channel \<noteq> []
                                     then ''channel '' @ channel_name channel
                                     else channel_str channel)
                        in Some (Returned, ev @ trace st @
                             [LogInfo (ReasonSelf (user_name author) (user_id author)
                                        (length batch) shown),
                              delete_with (is_bot \<and> can_mass_purge) batch])))))"


subsection \<open>The command group\<close>

text \<open>
  The subcommands of \<^verbatim>\<open>cleanup\<close> that take a count, with their other arguments, and
  the dispatch of the group to them.
\<close>

datatype subcommand =
  SubText string
| SubUser string
| SubMessages
| SubBot
| SubSelf "string option"

fun cleanup_counted :: "env \<Rightarrow> red_context \<Rightarrow> subcommand \<Rightarrow> int \<Rightarrow> run option" where
  "cleanup_counted e ctx (SubText txt) number = text_cmd e ctx txt number"
| "cleanup_counted e ctx (SubUser usr) number = user_cmd e ctx usr number"
| "cleanup_counted e ctx SubMessages number = messages_cmd e ctx number"
| "cleanup_counted e ctx SubBot number = cleanup_bot e ctx number"
| "cleanup_counted e ctx (SubSelf match_pattern) number = cleanup_self e ctx number match_pattern"





section \<open>Auxiliary notions for the statements\<close>



text \<open>The events a run of \<^verbatim>\<open>get_messages_for_deletion\<close> can add to the trace.\<close>

fun is_scan_event :: "event \<Rightarrow> bool" where
  "is_scan_event (History l b a) = True"
| "is_scan_event (Iterated m) = True"
| "is_scan_event _ = False"

text \<open>The batches the deletion executors received in a run.\<close>

fun batch_of :: "event \<Rightarrow> message list option" where
  "batch_of (MassPurge batch) = Some batch"
| "batch_of (SlowDeletion batch) = Some batch"
| "batch_of _ = None"

definition deleted_batches :: "event list \<Rightarrow> message list list" where
  "deleted_batches evs = List.map_filter batch_of evs"

text \<open>
  The form the counted subcommands share: the prompt, the collection with the
  predicate of the subcommand, and what the subcommand does with the final state
  (its outcome and its last events).
\<close>

definition counted_pipeline ::
  "env \<Rightarrow> red_context \<Rightarrow> int \<Rightarrow> (message \<Rightarrow> bool) \<Rightarrow> (collect_state \<Rightarrow> run) \<Rightarrow> run option"
where
  "counted_pipeline e ctx number chk finish =
     (case confirm e ctx number of
        None \<Rightarrow> None
      | Some (cont, ev) \<Rightarrow>
          if \<not> cont then Some (Returned, ev)
          else (case collect_run (ctx_message ctx) (ctx_channel ctx) number chk
                       (Some 1000) (Some (ctx_message ctx)) None of
                  None \<Rightarrow> None
                | Some st \<Rightarrow> Some (fst (finish st), ev @ trace st @ snd (finish st))))"

text \<open>The state in which the \<^verbatim>\<open>async for\<close> of one turn of the loop starts.\<close>

definition page_start :: "nat option \<Rightarrow> message option \<Rightarrow> collect_state \<Rightarrow> collect_state" where
  "page_start limit after s =
     s\<lparr>message_var := None, broke := False,
       trace := trace s @ [History limit (before_cur s) after]\<rparr>"

section \<open>Concrete runs\<close>

text \<open>
  Inputs on which the definitions are evaluated below.
  \<^item> \<open>literal_group\<close> is \<^verbatim>\<open>re.compile\<close> on the patterns \<^verbatim>\<open>(w)\<close> with \<open>w\<close> a word of
    small letters: \<^verbatim>\<open>match\<close> anchors at the start, so such a pattern matches the
    contents that start with \<open>w\<close>.
  \<^item> \<open>decimal\<close> is \<^verbatim>\<open>int\<close> on the strings of decimal digits.
  \<^item> \<open>quiet_inbox\<close> is a chat in which user 7 keeps talking and nobody else does;
    in \<open>answering_inbox\<close> user 1 writes the third message.
  \<^item> In \<open>ex_env\<close> the bot runs on the user account 1, the prefixes are \<^verbatim>\<open>!\<close> and
    \<^verbatim>\<open>!!\<close> in this order, the commands are \<^verbatim>\<open>cleanup\<close> and \<^verbatim>\<open>ping\<close>, and no
    member is found by name.
  \<^item> \<open>sorted_env\<close> is \<open>ex_env\<close> with an empty prefix, \<^verbatim>\<open>!!\<close> and \<^verbatim>\<open>!\<close>, in this
    order; in \<open>named_env\<close> every name resolves to user 2; in \<open>bot_env\<close> the bot runs
    on a bot account.
  \<^item> In \<open>self_ctx\<close> the account of the bot itself writes the command (a selfbot); in
    \<open>mod_ctx\<close> user 3 does.
  \<^item> \<open>window_ctx\<close> is a channel with messages 1, 2, 3, 15 and 16 days older than the
    command.
\<close>

definition ex_trigger :: message where
  "ex_trigger = mk_message 10 1 ''!cleanup messages 1'' 1000"

definition ex_recent :: "message list" where
  "ex_recent = [mk_message 9 2 ''a'' 900, mk_message 8 2 ''b'' 800, mk_message 7 2 ''c'' 700]"

definition literal_group :: "string \<Rightarrow> (string \<Rightarrow> bool) option" where
  "literal_group p =
     (if 2 \<le> length p \<and> hd p = CHR ''('' \<and> last p = CHR '')''
         \<and> list_all (\<lambda>c. c \<in> set ''abcdefghijklmnopqrstuvwxyz'') (butlast (tl p))
      then Some (prefix (butlast (tl p))) else None)"

definition decimal :: "string \<Rightarrow> int option" where
  "decimal s =
     (if s \<noteq> [] \<and> list_all (\<lambda>c. c \<in> set ''0123456789'') s
      then Some (foldl (\<lambda>a c. 10 * a + (int (of_char c) - 48)) 0 s) else None)"

definition quiet_inbox :: "nat \<Rightarrow> message" where
  "quiet_inbox n = mk_message (100 + n) 7 ''hello'' (2000 + int n)"

definition ex_env :: env where
  "ex_env = \<lparr>bot_user = mk_user 1, get_prefix = (\<lambda>m. PrefixList [''!'', ''!!'']),
            get_command = (\<lambda>name. name \<in> set [''cleanup'', ''ping'']),
            inbox = quiet_inbox, member_convert = (\<lambda>s. None),
            py_int = decimal,
            re_compile = literal_group\<rparr>"

definition sorted_env :: env where
  "sorted_env = ex_env\<lparr>get_prefix := (\<lambda>m. PrefixList ['''', ''!!'', ''!''])\<rparr>"

definition named_env :: env where
  "named_env = ex_env\<lparr>member_convert := (\<lambda>s. Some (mk_user 2))\<rparr>"

definition bot_env :: env where
  "bot_env = ex_env\<lparr>bot_user := (mk_user 1)\<lparr>user_bot := True\<rparr>\<rparr>"

definition answering_inbox :: "string \<Rightarrow> nat \<Rightarrow> message" where
  "answering_inbox answer n =
     (if n = 2 then mk_message 102 1 answer 2002 else quiet_inbox n)"

definition mod_ctx :: red_context where
  "mod_ctx = \<lparr>ctx_message = mk_message 10 3 ''!cleanup self 5'' 1000,
      ctx_channel = list_channel [mk_message 9 1 ''pong'' 900, mk_message 8 2 ''!!ping'' 800],
      me_manage_messages = True\<rparr>"

definition self_trigger :: message where
  "self_trigger = mk_message 10 1 ''!cleanup self 1 r(ok)'' 1000"

definition self_ctx :: red_context where
  "self_ctx = \<lparr>ctx_message = self_trigger,
      ctx_channel = list_channel [mk_message 9 1 ''ok then'' 900, mk_message 8 2 ''ok'' 800],
      me_manage_messages = False\<rparr>"

definition window_trigger :: message where
  "window_trigger = mk_message 50 1 ''!cleanup text x 10'' 1728000"

definition window_recent :: "message list" where
  "window_recent =
     [mk_message 45 2 ''x one'' 1641600, mk_message 44 2 ''two'' 1555200,
      mk_message 43 2 ''x three'' 1468800]"

definition window_old :: message where
  "window_old = mk_message 42 2 ''x old'' 432000"

definition window_older :: message where
  "window_older = mk_message 41 2 ''x older'' 345600"

definition window_ctx :: red_context where
  "window_ctx = \<lparr>ctx_message = window_trigger,
      ctx_channel = list_channel (window_recent @ [window_old, window_older]),
      me_manage_messages = True\<rparr>"

section \<open>Facts about one page\<close>

lemma scan_page_to_delete:
  "\<exists>ys. to_delete (scan_page cm number check page st) = to_delete st @ ys
        \<and> set ys \<subseteq> set page
        \<and> (\<forall>m\<in>set ys. check m \<and> days (created_at cm - created_at m) < 14)"
proof (induction page arbitrary: st)
  case Nil
  show ?case by simp
next
  case (Cons m ms)
  let ?st1 = "st\<lparr>message_var := Some m, trace := trace st @ [Iterated m]\<rparr>"
  show ?case
  proof (cases "(number = 0 \<or> int (length (to_delete st)) - 1 < number) \<and> check m
           \<and> days (created_at cm - created_at m) < 14")
    case True
    from Cons.IH [of "?st1\<lparr>to_delete := to_delete st @ [m]\<rparr>"]
    obtain ys where
      "to_delete (scan_page cm number check ms (?st1\<lparr>to_delete := to_delete st @ [m]\<rparr>))
         = to_delete st @ [m] @ ys"
      "set ys \<subseteq> set ms"
      "\<forall>x\<in>set ys. check x \<and> days (created_at cm - created_at x) < 14"
      by auto
    with True show ?thesis
      by (intro exI [of _ "m # ys"]) (auto simp: Let_def)
  next
    case False
    from Cons.IH [of ?st1]
    obtain ys where "to_delete (scan_page cm number check ms ?st1) = to_delete st @ ys"
      "set ys \<subseteq> set ms"
      "\<forall>x\<in>set ys. check x \<and> days (created_at cm - created_at x) < 14"
      by auto
    with False show ?thesis
      by (intro exI [of _ "if days (created_at cm - created_at m) \<ge> 14
                \<or> (number \<noteq> 0 \<and> int (length (to_delete st)) \<ge> number) then [] else ys"])
         (auto simp: Let_def)
  qed
qed

lemma scan_page_length:
  "0 < number \<Longrightarrow> int (length (to_delete st)) \<le> number + 1
     \<Longrightarrow> int (length (to_delete (scan_page cm number check page st))) \<le> number + 1"
  by (induction page arbitrary: st) (auto simp: Let_def)

lemma scan_page_trace:
  "\<exists>zs. trace (scan_page cm number check page st) = trace st @ map Iterated zs \<and> prefix zs page"
proof (induction page arbitrary: st)
  case Nil
  show ?case by simp
next
  case (Cons m ms)
  let ?st1 = "st\<lparr>message_var := Some m, trace := trace st @ [Iterated m]\<rparr>"
  from Cons.IH [of ?st1] obtain zs where
    a: "trace (scan_page cm number check ms ?st1) = trace st @ map Iterated (m # zs)"
       "prefix zs ms"
    by auto
  from Cons.IH [of "?st1\<lparr>to_delete := to_delete st @ [m]\<rparr>"] obtain zs' where
    b: "trace (scan_page cm number check ms (?st1\<lparr>to_delete := to_delete st @ [m]\<rparr>))
          = trace st @ map Iterated (m # zs')"
       "prefix zs' ms"
    by auto
  show ?case
  proof (cases "(number = 0 \<or> int (length (to_delete st)) - 1 < number) \<and> check m
           \<and> days (created_at cm - created_at m) < 14")
    case True
    with b show ?thesis by (intro exI [of _ "m # zs'"]) (simp add: Let_def)
  next
    case False
    show ?thesis
    proof (cases "days (created_at cm - created_at m) \<ge> 14
        \<or> (number \<noteq> 0 \<and> int (length (to_delete st)) \<ge> number)")
      case True
      with False show ?thesis by (intro exI [of _ "[m]"]) (auto simp: Let_def)
    next
      case nb: False
      with False a show ?thesis by (intro exI [of _ "m # zs"]) (auto simp: Let_def)
    qed
  qed
qed

lemma list_all_map_Iterated: "list_all is_scan_event (map Iterated zs)"
  by (induction zs) auto

lemma scan_page_events:
  "\<exists>es. trace (scan_page cm number check page st) = trace st @ es \<and> list_all is_scan_event es"
  using scan_page_trace [of cm number check page st] list_all_map_Iterated by metis

text \<open>A page that was not left by \<^verbatim>\<open>break\<close> was iterated to its end.\<close>

lemma scan_page_append:
  "\<not> broke (scan_page cm number check pre st)
     \<Longrightarrow> scan_page cm number check (pre @ ys) st
           = scan_page cm number check ys (scan_page cm number check pre st)"
proof (induction pre arbitrary: st)
  case Nil
  show ?case by simp
next
  case (Cons m ms)
  then show ?case
    by (auto simp: Let_def split: if_splits)
qed

lemma scan_page_full_trace:
  "\<not> broke (scan_page cm number check pre st)
     \<Longrightarrow> trace (scan_page cm number check pre st) = trace st @ map Iterated pre"
  by (induction pre arbitrary: st) (auto simp: Let_def split: if_splits)

section \<open>Facts about the loop\<close>

lemma collect_loop_unfold:
  "collect_loop cm chan number check limit after st =
     (if \<not> too_old st \<and> int (length (to_delete st)) - 1 < number
      then (let st' = scan_page cm number check (history chan limit (before_cur st) after)
                        (page_start limit after st)
            in if message_var st' = None then Some st'
               else collect_loop cm chan number check limit after
                      (st'\<lparr>before_cur := message_var st'\<rparr>))
      else Some st)"
  by (subst collect_loop.simps) (simp add: page_start_def Let_def)

text \<open>
  Induction over the turns of a loop that returns: a relation between the state at the
  head of the loop and the final state holds when it holds for a loop that stops at
  once, for a last page, and is carried backwards over a turn.
\<close>

lemma collect_loop_induct:
  assumes run: "collect_loop cm chan number check limit after st = Some st'"
    and stay: "\<And>s. Q s s"
    and last: "\<And>s. \<not> too_old s \<Longrightarrow> int (length (to_delete s)) - 1 < number
        \<Longrightarrow> Q s (scan_page cm number check (history chan limit (before_cur s) after)
                    (page_start limit after s))"
    and step: "\<And>s s1 r. \<not> too_old s \<Longrightarrow> int (length (to_delete s)) - 1 < number
        \<Longrightarrow> s1 = scan_page cm number check (history chan limit (before_cur s) after)
                    (page_start limit after s)
        \<Longrightarrow> Q (s1\<lparr>before_cur := message_var s1\<rparr>) r \<Longrightarrow> Q s r"
  shows "Q st st'"
proof -
  let ?P = "\<lambda>cm' chan' number' check' limit' after' s r.
      cm' = cm \<longrightarrow> chan' = chan \<longrightarrow> number' = number \<longrightarrow> check' = check
        \<longrightarrow> limit' = limit \<longrightarrow> after' = after \<longrightarrow> Q s r"
  have "?P cm chan number check limit after st st'"
  proof (rule collect_loop.raw_induct [where P = ?P, OF _ run], intro impI)
    fix loop cm' chan' number' check' limit' after' s r
    assume IH: "\<And>a b c d e f g y. loop a b c d e f g = Some y \<Longrightarrow> ?P a b c d e f g y"
      and body: "(if \<not> too_old s \<and> int (length (to_delete s)) - 1 < number'
          then let page = history chan' limit' (before_cur s) after';
                   st' = scan_page cm' number' check' page
                      (s\<lparr>message_var := None, broke := False,
                         trace := trace s @ [History limit' (before_cur s) after']\<rparr>)
               in if message_var st' = None then Some st'
                  else loop cm' chan' number' check' limit' after'
                        (st'\<lparr>before_cur := message_var st'\<rparr>)
          else Some s) = Some r"
      and eqs: "cm' = cm" "chan' = chan" "number' = number" "check' = check"
        "limit' = limit" "after' = after"
    let ?s1 = "scan_page cm number check (history chan limit (before_cur s) after)
                 (page_start limit after s)"
    show "Q s r"
    proof (cases "\<not> too_old s \<and> int (length (to_delete s)) - 1 < number")
      case False
      with body eqs have "r = s" by (simp split: if_splits)
      with stay show ?thesis by simp
    next
      case enter: True
      show ?thesis
      proof (cases "message_var ?s1 = None")
        case True
        with body eqs enter have "r = ?s1" by (simp add: Let_def page_start_def)
        with last [of s] enter show ?thesis by simp
      next
        case False
        with body eqs enter
        have "loop cm chan number check limit after (?s1\<lparr>before_cur := message_var ?s1\<rparr>)
                = Some r"
          by (simp add: Let_def page_start_def del: not_None_eq)
        from IH [OF this] have "Q (?s1\<lparr>before_cur := message_var ?s1\<rparr>) r" by simp
        with step [of s ?s1 r] enter show ?thesis by simp
      qed
    qed
  qed
  then show ?thesis by simp
qed

lemma collect_loop_to_delete:
  assumes "collect_loop cm chan number check limit after st = Some st'"
  shows "\<exists>ys. to_delete st' = to_delete st @ ys
           \<and> (\<forall>m\<in>set ys. check m \<and> days (created_at cm - created_at m) < 14)"
proof (rule collect_loop_induct [OF assms])
  fix s :: collect_state
  show "\<exists>ys. to_delete s = to_delete s @ ys
           \<and> (\<forall>m\<in>set ys. check m \<and> days (created_at cm - created_at m) < 14)"
    by simp
next
  fix s :: collect_state
  from scan_page_to_delete [of cm number check "history chan limit (before_cur s) after"
      "page_start limit after s"]
  show "\<exists>ys. to_delete (scan_page cm number check (history chan limit (before_cur s) after)
                    (page_start limit after s)) = to_delete s @ ys
           \<and> (\<forall>m\<in>set ys. check m \<and> days (created_at cm - created_at m) < 14)"
    by (auto simp: page_start_def)
next
  fix s s1 r :: collect_state
  assume s1: "s1 = scan_page cm number check (history chan limit (before_cur s) after)
                    (page_start limit after s)"
    and r: "\<exists>ys. to_delete r = to_delete (s1\<lparr>before_cur := message_var s1\<rparr>) @ ys
           \<and> (\<forall>m\<in>set ys. check m \<and> days (created_at cm - created_at m) < 14)"
  from scan_page_to_delete [of cm number check "history chan limit (before_cur s) after"
      "page_start limit after s"] s1
  obtain ys where "to_delete s1 = to_delete s @ ys"
     "\<forall>m\<in>set ys. check m \<and> days (created_at cm - created_at m) < 14"
    by (auto simp: page_start_def)
  with r show "\<exists>ys. to_delete r = to_delete s @ ys
           \<and> (\<forall>m\<in>set ys. check m \<and> days (created_at cm - created_at m) < 14)"
    by auto
qed

lemma collect_loop_events:
  assumes "collect_loop cm chan number check limit after st = Some st'"
  shows "\<exists>es. trace st' = trace st @ es \<and> list_all is_scan_event es"
proof (rule collect_loop_induct [OF assms])
  fix s :: collect_state
  show "\<exists>es. trace s = trace s @ es \<and> list_all is_scan_event es"
    by simp
next
  fix s :: collect_state
  from scan_page_events [of cm number check "history chan limit (before_cur s) after"
      "page_start limit after s"]
  obtain es where "trace (scan_page cm number check (history chan limit (before_cur s) after)
                    (page_start limit after s))
       = trace s @ History limit (before_cur s) after # es" "list_all is_scan_event es"
    by (auto simp: page_start_def)
  then show "\<exists>es. trace (scan_page cm number check (history chan limit (before_cur s) after)
                    (page_start limit after s)) = trace s @ es \<and> list_all is_scan_event es"
    by (intro exI [of _ "History limit (before_cur s) after # es"]) simp
next
  fix s s1 r :: collect_state
  assume s1: "s1 = scan_page cm number check (history chan limit (before_cur s) after)
                    (page_start limit after s)"
    and r: "\<exists>es. trace r = trace (s1\<lparr>before_cur := message_var s1\<rparr>) @ es
              \<and> list_all is_scan_event es"
  from scan_page_events [of cm number check "history chan limit (before_cur s) after"
      "page_start limit after s"] s1
  obtain es where es: "trace s1 = trace s @ History limit (before_cur s) after # es"
      "list_all is_scan_event es"
    by (auto simp: page_start_def)
  from r obtain es' where es': "trace r = trace s1 @ es'" "list_all is_scan_event es'"
    by auto
  from es es' show "\<exists>es. trace r = trace s @ es \<and> list_all is_scan_event es"
    by (intro exI [of _ "History limit (before_cur s) after # es @ es'"]) simp
qed

lemma collect_loop_length:
  assumes "collect_loop cm chan number check limit after st = Some st'"
    and "0 < number"
  shows "int (length (to_delete st)) \<le> number + 1 \<longrightarrow> int (length (to_delete st')) \<le> number + 1"
proof (rule collect_loop_induct [OF assms(1)])
  fix s :: collect_state
  show "int (length (to_delete s)) \<le> number + 1 \<longrightarrow> int (length (to_delete s)) \<le> number + 1"
    by simp
next
  fix s :: collect_state
  from scan_page_length [OF assms(2), of "page_start limit after s" cm check
      "history chan limit (before_cur s) after"]
  show "int (length (to_delete s)) \<le> number + 1 \<longrightarrow>
     int (length (to_delete (scan_page cm number check (history chan limit (before_cur s) after)
                    (page_start limit after s)))) \<le> number + 1"
    by (simp add: page_start_def)
next
  fix s s1 r :: collect_state
  assume s1: "s1 = scan_page cm number check (history chan limit (before_cur s) after)
                    (page_start limit after s)"
    and r: "int (length (to_delete (s1\<lparr>before_cur := message_var s1\<rparr>))) \<le> number + 1
              \<longrightarrow> int (length (to_delete r)) \<le> number + 1"
  from scan_page_length [OF assms(2), of "page_start limit after s" cm check
      "history chan limit (before_cur s) after"] s1 r
  show "int (length (to_delete s)) \<le> number + 1 \<longrightarrow> int (length (to_delete r)) \<le> number + 1"
    by (simp add: page_start_def)
qed


lemmas window_defs = window_trigger_def window_recent_def window_old_def window_older_def
  window_ctx_def

lemmas ex_defs = ex_trigger_def ex_recent_def list_channel_def list_history_def mk_message_def mk_user_def
  ex_env_def self_trigger_def self_ctx_def literal_group_def quiet_inbox_def
  answering_inbox_def mod_ctx_def decimal_def sorted_env_def named_env_def bot_env_def

lemmas str_defs = suffix_to_prefix sublist_code(3)

lemmas run_defs = get_messages_for_deletion_def collect_run_def init_state_def
  collect_loop_unfold page_start_def days_def default_check_def Let_def

lemma days_window: "days d < 14 \<longleftrightarrow> d < 14 * 86400"
proof -
  define q r where "q = d div 86400" and "r = d mod 86400"
  have "d = 86400 * q + r" "0 \<le> r" "r < 86400"
    by (simp_all add: q_def r_def)
  then have "q < 14 \<longleftrightarrow> d < 14 * 86400" by linarith
  then show ?thesis by (simp add: days_def q_def)
qed

lemma deleted_batches_append:
  "deleted_batches (xs @ ys) = deleted_batches xs @ deleted_batches ys"
  by (simp add: deleted_batches_def map_filter_def)

lemma deleted_batches_scan: "list_all is_scan_event es \<Longrightarrow> deleted_batches es = []"
proof (induction es)
  case Nil
  show ?case by (simp add: deleted_batches_def map_filter_def)
next
  case (Cons x xs)
  then show ?case by (cases x) (simp_all add: deleted_batches_def map_filter_def)
qed

lemma collect_run_trace:
  "collect_run cm chan number check limit bef after = Some st \<Longrightarrow> list_all is_scan_event (trace st)"
  using collect_loop_events [of cm chan number check limit after "init_state bef" st]
  by (auto simp: collect_run_def init_state_def)

lemma collect_run_to_delete:
  "collect_run cm chan number check limit bef after = Some st
     \<Longrightarrow> \<forall>m\<in>set (to_delete st). check m \<and> days (created_at cm - created_at m) < 14"
  using collect_loop_to_delete [of cm chan number check limit after "init_state bef" st]
  by (auto simp: collect_run_def init_state_def)

lemma confirm_cases:
  assumes "confirm e ctx number = Some (cont, ev)"
  shows "(number \<le> 100 \<and> cont \<and> ev = [])
       \<or> (100 < number \<and> cont \<and> ev = [Send (AreYouSure number), WaitFor])
       \<or> (100 < number \<and> \<not> cont \<and> ev = [Send (AreYouSure number), WaitFor, Send Cancelled])"
  using assms
  by (auto simp: confirm_def check_100_plus_def split: if_splits option.splits)

lemma confirm_no_batches: "confirm e ctx number = Some (cont, ev) \<Longrightarrow> deleted_batches ev = []"
  by (drule confirm_cases) (auto simp: deleted_batches_def map_filter_def)



lemma cleanup_self_declined:
  "confirm e ctx count = Some (False, ev) \<Longrightarrow> cleanup_self e ctx count pat = Some (Returned, ev)"
  by (simp add: cleanup_self_def Let_def)

lemma cleanup_self_collected:
  assumes "confirm e ctx count = Some (True, ev)"
    and "content_match e pat = Inr matches"
    and "collect_run (ctx_message ctx) (ctx_channel ctx) count (self_check e matches) (Some 1000)
             (Some (ctx_message ctx)) None = Some st"
    and "handed = (if user_id (author (ctx_message ctx)) = user_id (bot_user e)
                  then to_delete st @ [ctx_message ctx] else to_delete st)"
  shows "cleanup_self e ctx count pat = Some (Returned, ev @ trace st @
           [LogInfo (ReasonSelf (user_name (author (ctx_message ctx)))
                       (user_id (author (ctx_message ctx))) (length handed)
                       (if channel_name (ctx_channel ctx) \<noteq> []
                        then ''channel '' @ channel_name (ctx_channel ctx)
                        else channel_str (ctx_channel ctx))),
            delete_with (user_bot (bot_user e)
                \<and> (if is_member (author (ctx_message ctx)) then me_manage_messages ctx else False))
              handed])"
  using assms by (simp add: cleanup_self_def Let_def)

lemma cleanup_self_stuck:
  assumes "confirm e ctx count = Some (True, ev)"
    and "content_match e pat = Inr matches"
    and "collect_run (ctx_message ctx) (ctx_channel ctx) count (self_check e matches) (Some 1000)
             (Some (ctx_message ctx)) None = None"
  shows "cleanup_self e ctx count pat = None"
  using assms by (simp add: cleanup_self_def Let_def)

lemma batch_of_delete_with: "batch_of (delete_with b handed) = Some handed"
  by (simp add: delete_with_def)

lemma deleted_batches_run:
  assumes "deleted_batches ev = []" and "list_all is_scan_event tr"
  shows "deleted_batches (ev @ tr @ [LogInfo r, delete_with b handed]) = [handed]"
proof -
  have "deleted_batches [LogInfo r, delete_with b handed] = [handed]"
    by (simp add: deleted_batches_def map_filter_def batch_of_delete_with)
  with assms deleted_batches_scan [OF assms(2)] show ?thesis
    by (simp add: deleted_batches_append)
qed


lemma cleanup_self_unanswered:
  "confirm e ctx count = None \<Longrightarrow> cleanup_self e ctx count pat = None"
  by (simp add: cleanup_self_def Let_def)

lemma collect_bound:
  assumes "get_messages_for_deletion cm chan number check limit bef after = Some batch"
    and "0 < number"
  shows "int (length batch) \<le> number + 1"
proof -
  from assms(1) obtain st where st: "collect_loop cm chan number check limit after (init_state bef) = Some st"
     "batch = to_delete st"
    by (auto simp: get_messages_for_deletion_def collect_run_def)
  from collect_loop_length [OF st(1) assms(2)] assms(2) st(2) show ?thesis
    by (simp add: init_state_def)
qed


lemma self_run_example:
  "cleanup_self ex_env self_ctx 1 (Some ''r(ok)'')
     = Some (Returned,
         [History (Some 1000) (Some self_trigger) None,
          Iterated (mk_message 9 1 ''ok then'' 900),
          Iterated (mk_message 8 2 ''ok'' 800),
          History (Some 1000) (Some (mk_message 8 2 ''ok'' 800)) None,
          LogInfo (ReasonSelf ''u'' 1 2 ''channel general''),
          SlowDeletion [mk_message 9 1 ''ok then'' 900, self_trigger]])"
  by (simp add: cleanup_self_def confirm_def content_match_def use_re_def self_check_def
        delete_with_def run_defs ex_defs str_defs)

lemma self_match_example: "content_match ex_env (Some ''r(ok)'') = Inr (prefix ''ok'')"
  by (simp add: content_match_def use_re_def ex_defs str_defs)


lemma scan_page_message_var:
  "message_var (scan_page cm number chk page s) = Some m
     \<Longrightarrow> m \<in> set page \<or> message_var s = Some m"
proof (induction page arbitrary: s)
  case Nil
  then show ?case by simp
next
  case (Cons x xs)
  let ?s1 = "s\<lparr>message_var := Some x, trace := trace s @ [Iterated x]\<rparr>"
  from Cons.prems consider
      "message_var (scan_page cm number chk xs (?s1\<lparr>to_delete := to_delete s @ [x]\<rparr>)) = Some m"
    | "message_var (scan_page cm number chk xs ?s1) = Some m"
    | "x = m"
    by (auto simp: Let_def split: if_splits)
  then show ?case
  proof cases
    case 1
    from Cons.IH [OF this] show ?thesis by auto
  next
    case 2
    from Cons.IH [OF this] show ?thesis by auto
  next
    case 3
    then show ?thesis by simp
  qed
qed

section \<open>Channels backed by a list\<close>

text \<open>
  On a channel that holds finitely many messages and pages them by id the loop always
  returns: each turn moves the cursor to a message with a smaller id.
\<close>

lemma list_history_member:
  assumes "x \<in> set (list_history msgs limit bef aft)"
  shows "x \<in> set msgs \<and> (\<forall>b. bef = Some b \<longrightarrow> msg_id x < msg_id b)"
proof -
  let ?sel = "filter (\<lambda>m. (case bef of None \<Rightarrow> True | Some b \<Rightarrow> msg_id m < msg_id b)
                          \<and> (case aft of None \<Rightarrow> True | Some a \<Rightarrow> msg_id a < msg_id m)) msgs"
  from assms have "x \<in> set ?sel"
    by (auto simp: list_history_def Let_def split: option.splits if_splits dest: in_set_takeD)
  then show ?thesis by auto
qed

lemma list_channel_returns:
  "\<exists>r. collect_loop cm (list_channel msgs) number chk limit after st = Some r"
proof (induction st rule: measure_induct_rule [of "\<lambda>st. case before_cur st of
          None \<Rightarrow> Suc (length msgs)
        | Some b \<Rightarrow> length (filter (\<lambda>x. msg_id x < msg_id b) msgs)"])
  case (less st)
  let ?page = "history (list_channel msgs) limit (before_cur st) after"
  let ?s1 = "scan_page cm number chk ?page (page_start limit after st)"
  show ?case
  proof (cases "\<not> too_old st \<and> int (length (to_delete st)) - 1 < number")
    case False
    then show ?thesis by (subst collect_loop_unfold) auto
  next
    case enter: True
    show ?thesis
    proof (cases "message_var ?s1")
      case None
      with enter show ?thesis by (subst collect_loop_unfold) (simp add: Let_def)
    next
      case (Some m)
      from scan_page_message_var [OF Some] have "m \<in> set ?page"
        by (simp add: page_start_def)
      then have "m \<in> set (list_history msgs limit (before_cur st) after)"
        by (simp add: list_channel_def)
      from list_history_member [OF this]
      have m: "m \<in> set msgs" "\<forall>b. before_cur st = Some b \<longrightarrow> msg_id m < msg_id b"
        by auto
      let ?next = "?s1\<lparr>before_cur := Some m\<rparr>"
      have "(case before_cur ?next of None \<Rightarrow> Suc (length msgs)
              | Some b \<Rightarrow> length (filter (\<lambda>x. msg_id x < msg_id b) msgs))
          < (case before_cur st of None \<Rightarrow> Suc (length msgs)
              | Some b \<Rightarrow> length (filter (\<lambda>x. msg_id x < msg_id b) msgs))"
      proof (cases "before_cur st")
        case None
        then show ?thesis by (simp add: less_Suc_eq_le)
      next
        case (Some b)
        with m have lt: "msg_id m < msg_id b" by simp
        let ?below = "filter (\<lambda>x. msg_id x < msg_id b) msgs"
        have "filter (\<lambda>x. msg_id x < msg_id m) msgs = filter (\<lambda>x. msg_id x < msg_id m) ?below"
          using lt by (auto intro: filter_cong)
        moreover have "length (filter (\<lambda>x. msg_id x < msg_id m) ?below) < length ?below"
          using m(1) lt by (intro length_filter_less [of m]) auto
        ultimately show ?thesis using Some by simp
      qed
      from less.IH [OF this] obtain r where
        "collect_loop cm (list_channel msgs) number chk limit after ?next = Some r"
        by auto
      with enter Some show ?thesis
        by (subst collect_loop_unfold) (simp add: Let_def)
    qed
  qed
qed


lemma list_channel_collects:
  "\<exists>batch. get_messages_for_deletion cm (list_channel msgs) number chk limit bef after
            = Some batch"
  using list_channel_returns [of cm msgs number chk limit after "init_state bef"]
  by (auto simp: get_messages_for_deletion_def collect_run_def)

section \<open>Facts about the prompt\<close>

lemma wait_for_found:
  assumes "wait_for chk msgs n = Some y"
  shows "\<exists>k\<ge>n. chk (msgs k) \<and> y = msgs k"
proof -
  let ?P = "\<lambda>chk' msgs' n y. chk' = chk \<longrightarrow> msgs' = msgs \<longrightarrow> (\<exists>k\<ge>n. chk (msgs k) \<and> y = msgs k)"
  have "?P chk msgs n y"
  proof (rule wait_for.raw_induct [where P = ?P, OF _ assms], intro impI)
    fix w chk' msgs' n y
    assume IH: "\<And>a b c y. w a b c = Some y \<Longrightarrow> ?P a b c y"
      and body: "(if chk' (msgs' n) then Some (msgs' n) else w chk' msgs' (Suc n)) = Some y"
      and eqs: "chk' = chk" "msgs' = msgs"
    show "\<exists>k\<ge>n. chk (msgs k) \<and> y = msgs k"
    proof (cases "chk (msgs n)")
      case True
      with body eqs show ?thesis by auto
    next
      case False
      with body eqs have "w chk msgs (Suc n) = Some y" by simp
      from IH [OF this] obtain k where "Suc n \<le> k" "chk (msgs k)" "y = msgs k" by auto
      then show ?thesis by (intro exI [of _ k]) simp
    qed
  qed
  then show ?thesis by simp
qed

lemma wait_for_none: "(\<forall>k\<ge>n. \<not> chk (msgs k)) \<Longrightarrow> wait_for chk msgs n = None"
  using wait_for_found [of chk msgs n] by (cases "wait_for chk msgs n") auto

lemma wait_for_first:
  "chk (msgs k) \<Longrightarrow> (\<forall>j. n \<le> j \<and> j < k \<longrightarrow> \<not> chk (msgs j)) \<Longrightarrow> n \<le> k
     \<Longrightarrow> wait_for chk msgs n = Some (msgs k)"
proof (induction "k - n" arbitrary: n)
  case 0
  then show ?case by (subst wait_for.simps) simp
next
  case (Suc d)
  then have "\<not> chk (msgs n)" "n < k" by auto
  moreover from Suc have "wait_for chk msgs (Suc n) = Some (msgs k)" by auto
  ultimately show ?case by (subst wait_for.simps) simp
qed

lemma wait_for_none_iff: "wait_for chk msgs 0 = None \<longleftrightarrow> (\<forall>k. \<not> chk (msgs k))"
proof
  assume none: "wait_for chk msgs 0 = None"
  show "\<forall>k. \<not> chk (msgs k)"
  proof (rule ccontr)
    assume "\<not> (\<forall>k. \<not> chk (msgs k))"
    then obtain k where k: "chk (msgs k)" by auto
    define k0 where "k0 = (LEAST k. chk (msgs k))"
    have first: "chk (msgs k0)"
      unfolding k0_def using k by (rule LeastI)
    have "\<not> chk (msgs j)" if "j < k0" for j
      using that unfolding k0_def by (rule not_less_Least)
    then have "\<forall>j. 0 \<le> j \<and> j < k0 \<longrightarrow> \<not> chk (msgs j)" by blast
    with first have "wait_for chk msgs 0 = Some (msgs k0)"
      by (rule wait_for_first) simp
    with none show False by simp
  qed
next
  assume "\<forall>k. \<not> chk (msgs k)"
  then show "wait_for chk msgs 0 = None" by (intro wait_for_none) simp
qed




lemma of_char_Y: "of_char (CHR ''Y'') = (89::nat)" by simp



lemma lower_Yes: "lower ''Yes'' = ''yes''"
  by code_simp

lemma lower_no: "lower ''no'' = ''no''"
  by code_simp


section \<open>Facts about the subcommands\<close>



lemma text_cmd_pipeline:
  "text_cmd e ctx pattern number =
     counted_pipeline e ctx number (text_check ctx pattern)
       (\<lambda>st. (Returned,
          [LogInfo (ReasonText (user_name (ctx_author ctx)) (user_id (ctx_author ctx))
                     (length (to_delete st)) pattern (channel_id (ctx_channel ctx))),
           delete_with (user_bot (bot_user e)) (to_delete st)]))"
  by (simp add: text_cmd_def counted_pipeline_def Let_def split: option.splits)

lemma messages_cmd_pipeline:
  "messages_cmd e ctx number =
     counted_pipeline e ctx number default_check
       (\<lambda>st. (Returned,
          [LogInfo (ReasonMessages (user_name (ctx_author ctx)) (user_id (ctx_author ctx))
                     number (channel_name (ctx_channel ctx))),
           delete_with (user_bot (bot_user e)) (to_delete st)]))"
  by (simp add: messages_cmd_def counted_pipeline_def Let_def split: option.splits)

lemma cleanup_bot_pipeline:
  "cleanup_bot e ctx number =
     counted_pipeline e ctx number (bot_check e ctx (server_prefixes e ctx))
       (\<lambda>st. (Returned,
          [LogInfo (ReasonBot (user_name (author (ctx_message ctx)))
                     (user_id (author (ctx_message ctx)))
                     (length (to_delete st)) (channel_name (ctx_channel ctx))),
           delete_with (user_bot (bot_user e)) (to_delete st)]))"
  by (simp add: cleanup_bot_def counted_pipeline_def Let_def split: option.splits)

lemma user_cmd_pipeline:
  "user_cmd e ctx usr number =
     (case resolve_user e usr of
        Inl err \<Rightarrow> Some (Raised err, [])
      | Inr (member, uid) \<Rightarrow>
          counted_pipeline e ctx number (user_check ctx uid)
            (\<lambda>st. case member_or member of
                     Inl err \<Rightarrow> (Raised err, [])
                   | Inr shown \<Rightarrow> (Returned,
                       [LogInfo (ReasonUser (user_name (ctx_author ctx))
                                  (user_id (ctx_author ctx)) (length (to_delete st)) shown uid
                                  (channel_name (ctx_channel ctx))),
                        delete_with (user_bot (bot_user e)) (to_delete st)])))"
  by (simp add: user_cmd_def counted_pipeline_def Let_def split: option.splits sum.splits)









lemma user_run_example:
  "collect_run (ctx_message mod_ctx) (ctx_channel mod_ctx) 2 (user_check mod_ctx 42)
           (Some 1000) (Some (ctx_message mod_ctx)) None
   = Some \<lparr>to_delete = [], too_old = False, message_var = None,
           before_cur = Some (mk_message 8 2 ''!!ping'' 800), broke = False,
           trace = [History (Some 1000) (Some (ctx_message mod_ctx)) None,
                    Iterated (mk_message 9 1 ''pong'' 900),
                    Iterated (mk_message 8 2 ''!!ping'' 800),
                    History (Some 1000) (Some (mk_message 8 2 ''!!ping'' 800)) None]\<rparr>"
  by (simp add: user_check_def run_defs ex_defs)


lemma answering_wait:
  "wait_for (author_check self_ctx) (answering_inbox answer) 0 = Some (mk_message 102 1 answer 2002)"
proof -
  have "wait_for (author_check self_ctx) (answering_inbox answer) 0
          = Some (answering_inbox answer 2)"
    by (rule wait_for_first) (simp_all add: author_check_def ctx_author_def ex_defs)
  then show ?thesis by (simp add: answering_inbox_def)
qed

lemma find_prefix_first:
  assumes "find_prefix pfxs m = Some p"
  shows "(\<exists>i<length pfxs. pfxs ! i = p \<and> prefix p (content m)
            \<and> (\<forall>j<i. \<not> prefix (pfxs ! j) (content m)))
       \<and> (sorted_wrt (\<lambda>a b. length b \<le> length a) pfxs
            \<longrightarrow> (\<forall>q\<in>set pfxs. prefix q (content m) \<longrightarrow> length q \<le> length p))"
proof -
  from assms obtain i where i: "i < length pfxs" "pfxs ! i = p" "prefix p (content m)"
      "\<forall>j<i. \<not> prefix (pfxs ! j) (content m)"
    by (auto simp: find_prefix_def find_Some_iff)
  have "length q \<le> length p"
    if srt: "sorted_wrt (\<lambda>a b. length b \<le> length a) pfxs"
      and q: "q \<in> set pfxs" "prefix q (content m)" for q
  proof -
    from q(1) obtain k where k: "k < length pfxs" "pfxs ! k = q"
      by (auto simp: in_set_conv_nth)
    with i(4) q(2) have "\<not> k < i" by auto
    then consider "k = i" | "i < k" by linarith
    then show ?thesis
    proof cases
      case 1
      with k i show ?thesis by simp
    next
      case 2
      with srt k i show ?thesis by (auto simp: sorted_wrt_iff_nth_less)
    qed
  qed
  with i show ?thesis by blast
qed

lemma server_prefixes_remove:
  "server_prefixes e ctx
     = remove1 [] (case get_prefix e (ctx_message ctx) of PrefixStr s \<Rightarrow> [s] | PrefixList ps \<Rightarrow> ps)"
  by (simp add: server_prefixes_def Let_def remove1_idem)

lemma same_length_prefixes:
  "prefix p c \<Longrightarrow> prefix q c \<Longrightarrow> length p = length q \<Longrightarrow> p = q"
  by (auto simp: prefix_def)

lemma sorted_prefixes_example: "server_prefixes sorted_env mod_ctx = [''!!'', ''!'']"
  by (simp add: server_prefixes_def ex_defs)






lemma deleted_batches_final:
  "deleted_batches [LogInfo r, delete_with b handed] = [handed]"
  by (simp add: deleted_batches_def map_filter_def batch_of_delete_with)

lemma deleted_batches_Nil: "deleted_batches [] = []"
  by (simp add: deleted_batches_def map_filter_def)

lemma pipeline_batches:
  assumes run: "counted_pipeline e ctx number chk finish = Some (out, evs)"
    and fin: "\<And>st. deleted_batches (snd (finish st)) = []
                  \<or> deleted_batches (snd (finish st)) = [to_delete st]"
  shows "\<forall>handed\<in>set (deleted_batches evs). \<forall>m\<in>set handed.
           chk m \<and> created_at (ctx_message ctx) - created_at m < 14 * 86400"
proof -
  let ?run = "collect_run (ctx_message ctx) (ctx_channel ctx) number chk
                (Some 1000) (Some (ctx_message ctx)) None"
  from run obtain cont ev where conf: "confirm e ctx number = Some (cont, ev)"
    by (cases "confirm e ctx number") (auto simp: counted_pipeline_def)
  note nb = confirm_no_batches [OF conf]
  show ?thesis
  proof (cases cont)
    case False
    with run conf have "evs = ev" by (simp add: counted_pipeline_def)
    with nb show ?thesis by simp
  next
    case True
    with run conf obtain st where st: "?run = Some st"
      by (cases ?run) (auto simp: counted_pipeline_def)
    with run conf True have "evs = ev @ trace st @ snd (finish st)"
      by (simp add: counted_pipeline_def)
    with nb deleted_batches_scan [OF collect_run_trace [OF st]]
    have "deleted_batches evs = deleted_batches (snd (finish st))"
      by (simp add: deleted_batches_append)
    with fin [of st] have "set (deleted_batches evs) \<subseteq> {to_delete st}" by auto
    moreover from collect_run_to_delete [OF st]
    have "\<forall>m\<in>set (to_delete st). chk m
            \<and> created_at (ctx_message ctx) - created_at m < 14 * 86400"
      by (simp add: days_window)
    ultimately show ?thesis by blast
  qed
qed

lemma after_batches:
  assumes run: "after_cmd e ctx message_id = Some (out, evs)"
  shows "\<forall>handed\<in>set (deleted_batches evs). \<forall>m\<in>set handed.
           default_check m \<and> created_at (ctx_message ctx) - created_at m < 14 * 86400"
proof (cases "user_bot (bot_user e)")
  case False
  with run have "evs = [Send BotAccountsOnly]" by (simp add: after_cmd_def)
  then show ?thesis by (simp add: deleted_batches_def map_filter_def)
next
  case True
  show ?thesis
  proof (cases "get_message (ctx_channel ctx) message_id")
    case None
    with run True have "evs = [GetMessage message_id, Send MessageNotFound]"
      by (simp add: after_cmd_def)
    then show ?thesis by (simp add: deleted_batches_def map_filter_def)
  next
    case (Some after)
    let ?run = "collect_run (ctx_message ctx) (ctx_channel ctx) 0 default_check None None
                  (Some after)"
    from run True Some obtain st where st: "?run = Some st"
      by (cases ?run) (auto simp: after_cmd_def Let_def)
    with run True Some obtain r where
      "evs = [GetMessage message_id] @ trace st @ [LogInfo r, MassPurge (to_delete st)]"
      by (auto simp: after_cmd_def Let_def)
    with deleted_batches_scan [OF collect_run_trace [OF st]]
    have "deleted_batches evs = [to_delete st]"
      by (simp add: deleted_batches_append) (simp add: deleted_batches_def map_filter_def)
    moreover from collect_run_to_delete [OF st]
    have "\<forall>m\<in>set (to_delete st). default_check m
            \<and> created_at (ctx_message ctx) - created_at m < 14 * 86400"
      by (simp add: days_window)
    ultimately show ?thesis by simp
  qed
qed

lemma self_batches:
  assumes run: "cleanup_self e ctx count pat = Some (out, evs)"
    and cm: "content_match e pat = Inr matches"
  shows "\<forall>handed\<in>set (deleted_batches evs). \<forall>m\<in>set handed.
             created_at (ctx_message ctx) - created_at m < 14 * 86400
             \<and> (self_check e matches m
                \<or> m = ctx_message ctx \<and> user_id (author m) = user_id (bot_user e))"
proof -
  let ?cm = "ctx_message ctx"
  from run cleanup_self_unanswered [of e ctx count pat]
  obtain cont ev where conf: "confirm e ctx count = Some (cont, ev)"
    by (cases "confirm e ctx count") auto
  note nb = confirm_no_batches [OF conf]
  show ?thesis
  proof (cases cont)
    case False
    with run conf cleanup_self_declined [of e ctx count ev pat] have "evs = ev" by simp
    with nb show ?thesis by simp
  next
    case True
    let ?run = "collect_run ?cm (ctx_channel ctx) count (self_check e matches) (Some 1000)
             (Some ?cm) None"
    from run conf cm True cleanup_self_stuck [of e ctx count ev pat matches]
    obtain st where st: "?run = Some st"
      by (cases ?run) auto
    define handed where "handed = (if user_id (author ?cm) = user_id (bot_user e)
                  then to_delete st @ [?cm] else to_delete st)"
    from cleanup_self_collected [OF _ cm st handed_def, of ev] conf True run
    obtain r b where "evs = ev @ trace st @ [LogInfo r, delete_with b handed]"
      by simp
    with deleted_batches_run [OF nb collect_run_trace [OF st]]
    have db: "deleted_batches evs = [handed]" by simp
    from collect_run_to_delete [OF st]
    have "\<forall>m\<in>set (to_delete st). self_check e matches m
            \<and> created_at ?cm - created_at m < 14 * 86400"
      by (simp add: days_window)
    with db show ?thesis by (simp add: handed_def)
  qed
qed

lemma text_run_example:
  "text_cmd ex_env mod_ctx ''pong'' 5
     = Some (Returned,
         [History (Some 1000) (Some (ctx_message mod_ctx)) None,
          Iterated (mk_message 9 1 ''pong'' 900),
          Iterated (mk_message 8 2 ''!!ping'' 800),
          History (Some 1000) (Some (mk_message 8 2 ''!!ping'' 800)) None,
          LogInfo (ReasonText ''u'' 3 1 ''pong'' 1),
          SlowDeletion [mk_message 9 1 ''pong'' 900]])"
  by (simp add: text_cmd_def text_check_def confirm_def delete_with_def ctx_author_def
        run_defs ex_defs str_defs)

lemma named_run_example:
  "user_cmd named_env mod_ctx ''someone'' 5
     = Some (Returned,
         [History (Some 1000) (Some (ctx_message mod_ctx)) None,
          Iterated (mk_message 9 1 ''pong'' 900),
          Iterated (mk_message 8 2 ''!!ping'' 800),
          History (Some 1000) (Some (mk_message 8 2 ''!!ping'' 800)) None,
          LogInfo (ReasonUser ''u'' 3 1 ''u'' 2 ''general''),
          SlowDeletion [mk_message 8 2 ''!!ping'' 800]])"
  by (simp add: user_cmd_def resolve_user_def member_or_def user_check_def confirm_def
        delete_with_def ctx_author_def run_defs ex_defs)

lemma named_resolve_example:
  "resolve_user named_env ''someone'' = Inr (Some (mk_user 2), 2)"
  by (simp add: resolve_user_def ex_defs)

lemma after_run_example:
  "after_cmd bot_env mod_ctx 8
     = Some (Returned,
         [GetMessage 8,
          History None None (Some (mk_message 8 2 ''!!ping'' 800)),
          Iterated (mk_message 9 1 ''pong'' 900),
          LogInfo (ReasonAfter ''u'' 3 1 ''general''),
          MassPurge [mk_message 9 1 ''pong'' 900]])"
  by (simp add: after_cmd_def ctx_author_def run_defs ex_defs)

lemma all_run_example:
  "messages_cmd ex_env mod_ctx 5
     = Some (Returned,
         [History (Some 1000) (Some (ctx_message mod_ctx)) None,
          Iterated (mk_message 9 1 ''pong'' 900),
          Iterated (mk_message 8 2 ''!!ping'' 800),
          History (Some 1000) (Some (mk_message 8 2 ''!!ping'' 800)) None,
          LogInfo (ReasonMessages ''u'' 3 5 ''general''),
          SlowDeletion [mk_message 9 1 ''pong'' 900, mk_message 8 2 ''!!ping'' 800]])"
  by (simp add: messages_cmd_def confirm_def delete_with_def ctx_author_def run_defs ex_defs)

lemma bot_run_example:
  "cleanup_bot ex_env mod_ctx 5
     = Some (Returned,
         [History (Some 1000) (Some (ctx_message mod_ctx)) None,
          Iterated (mk_message 9 1 ''pong'' 900),
          Iterated (mk_message 8 2 ''!!ping'' 800),
          History (Some 1000) (Some (mk_message 8 2 ''!!ping'' 800)) None,
          LogInfo (ReasonBot ''u'' 3 1 ''general''),
          SlowDeletion [mk_message 9 1 ''pong'' 900]])"
  by (simp add: cleanup_bot_def bot_check_def server_prefixes_def find_prefix_def cmd_name_def
        confirm_def delete_with_def run_defs ex_defs)

lemma answered_confirm:
  "confirm (ex_env\<lparr>inbox := answering_inbox answer\<rparr>) self_ctx 150
     = (if prefix ''y'' (lower answer)
        then Some (True, [Send (AreYouSure 150), WaitFor])
        else Some (False, [Send (AreYouSure 150), WaitFor, Send Cancelled]))"
  by (simp add: confirm_def check_100_plus_def answering_wait mk_message_def)

lemma text_declined_example:
  "cleanup_counted (ex_env\<lparr>inbox := answering_inbox ''no''\<rparr>) self_ctx (SubText ''ok'') 150
     = Some (Returned, [Send (AreYouSure 150), WaitFor, Send Cancelled])"
  by (simp add: text_cmd_def answered_confirm lower_no)






section \<open>The claims\<close>

text \<open>
  C1. The claim: for a requested count \<open>N > 0\<close> the list returned by
  \<^verbatim>\<open>get_messages_for_deletion\<close> has at most \<open>N\<close> elements. The code tests
  \<^verbatim>\<open>len(to_delete) - 1 < number\<close> before it appends, so it appends one message more:
  with count 1 and three recent messages in the channel it returns two of them.
  (\<open>collect_bound\<close> above shows that \<open>N + 1\<close> is never exceeded.)
\<close>

theorem collect_overshoots_count:
  "get_messages_for_deletion ex_trigger (list_channel ex_recent) 1 default_check (Some 1000)
     (Some ex_trigger) None
   = Some [mk_message 9 2 ''a'' 900, mk_message 8 2 ''b'' 800]"
  by (simp add: run_defs ex_defs)

text \<open>
  C2, as stated: every message of the batch handed to the deletion executor satisfies the
  predicate and is younger than 14 days, also the trigger message that \<^verbatim>\<open>self\<close>
  appends. It fails for that trigger message: a selfbot runs
  \<^verbatim>\<open>cleanup self 1 r(ok)\<close>; the batch handed to \<^verbatim>\<open>slow_deletion\<close> ends with the
  trigger message, whose content does not match the pattern.
\<close>

theorem self_batch_holds_unmatched_trigger:
  "cleanup_self ex_env self_ctx 1 (Some ''r(ok)'')
     = Some (Returned,
         [History (Some 1000) (Some self_trigger) None,
          Iterated (mk_message 9 1 ''ok then'' 900),
          Iterated (mk_message 8 2 ''ok'' 800),
          History (Some 1000) (Some (mk_message 8 2 ''ok'' 800)) None,
          LogInfo (ReasonSelf ''u'' 1 2 ''channel general''),
          SlowDeletion [mk_message 9 1 ''ok then'' 900, self_trigger]])
   \<and> content_match ex_env (Some ''r(ok)'') = Inr (prefix ''ok'')
   \<and> \<not> self_check ex_env (prefix ''ok'') self_trigger"
  using self_run_example self_match_example
  by (simp add: self_check_def ex_defs str_defs)


text \<open>
  C2, amended: every message \<^verbatim>\<open>get_messages_for_deletion\<close> returns satisfies the
  predicate and is less than 14 days older than the trigger message, for every
  predicate and history. For \<^verbatim>\<open>text\<close>, \<^verbatim>\<open>user\<close>, \<^verbatim>\<open>after\<close>, \<^verbatim>\<open>messages\<close> and
  \<^verbatim>\<open>bot\<close>, every message of a batch handed to a deletion executor satisfies the
  predicate of the subcommand and is less than 14 days older than the trigger message.
  For \<^verbatim>\<open>self\<close>, every message of such a batch is less than 14 days older than the
  trigger message and either satisfies the predicate of \<^verbatim>\<open>self\<close> or is the trigger
  message itself, written by the bot's own account.
\<close>

theorem batch_young_and_matching:
  "(get_messages_for_deletion cm chan number check limit bef after = Some batch
      \<longrightarrow> (\<forall>m\<in>set batch. check m \<and> created_at cm - created_at m < 14 * 86400))
   \<and> (text_cmd e ctx pattern count = Some (out, evs)
      \<longrightarrow> (\<forall>handed\<in>set (deleted_batches evs). \<forall>m\<in>set handed.
             text_check ctx pattern m
             \<and> created_at (ctx_message ctx) - created_at m < 14 * 86400))
   \<and> (user_cmd e ctx usr count = Some (out, evs) \<and> resolve_user e usr = Inr (member, uid)
      \<longrightarrow> (\<forall>handed\<in>set (deleted_batches evs). \<forall>m\<in>set handed.
             user_check ctx uid m
             \<and> created_at (ctx_message ctx) - created_at m < 14 * 86400))
   \<and> (after_cmd e ctx message_id = Some (out, evs)
      \<longrightarrow> (\<forall>handed\<in>set (deleted_batches evs). \<forall>m\<in>set handed.
             default_check m
             \<and> created_at (ctx_message ctx) - created_at m < 14 * 86400))
   \<and> (messages_cmd e ctx count = Some (out, evs)
      \<longrightarrow> (\<forall>handed\<in>set (deleted_batches evs). \<forall>m\<in>set handed.
             default_check m
             \<and> created_at (ctx_message ctx) - created_at m < 14 * 86400))
   \<and> (cleanup_bot e ctx count = Some (out, evs)
      \<longrightarrow> (\<forall>handed\<in>set (deleted_batches evs). \<forall>m\<in>set handed.
             bot_check e ctx (server_prefixes e ctx) m
             \<and> created_at (ctx_message ctx) - created_at m < 14 * 86400))
   \<and> (cleanup_self e ctx count pat = Some (out, evs) \<and> content_match e pat = Inr matches
      \<longrightarrow> (\<forall>handed\<in>set (deleted_batches evs). \<forall>m\<in>set handed.
             created_at (ctx_message ctx) - created_at m < 14 * 86400
             \<and> (self_check e matches m
                \<or> m = ctx_message ctx \<and> user_id (author m) = user_id (bot_user e))))"
proof (intro conjI impI; (elim conjE)?)
  assume "get_messages_for_deletion cm chan number check limit bef after = Some batch"
  then obtain st where "collect_run cm chan number check limit bef after = Some st"
      "batch = to_delete st"
    by (auto simp: get_messages_for_deletion_def)
  with collect_run_to_delete [of cm chan number check limit bef after st]
  show "\<forall>m\<in>set batch. check m \<and> created_at cm - created_at m < 14 * 86400"
    by (simp add: days_window)
next
  assume "text_cmd e ctx pattern count = Some (out, evs)"
  then show "\<forall>handed\<in>set (deleted_batches evs). \<forall>m\<in>set handed.
             text_check ctx pattern m
             \<and> created_at (ctx_message ctx) - created_at m < 14 * 86400"
    unfolding text_cmd_pipeline
    by (rule pipeline_batches) (simp add: deleted_batches_final)
next
  assume run: "user_cmd e ctx usr count = Some (out, evs)"
    and res: "resolve_user e usr = Inr (member, uid)"
  from run res show "\<forall>handed\<in>set (deleted_batches evs). \<forall>m\<in>set handed.
             user_check ctx uid m
             \<and> created_at (ctx_message ctx) - created_at m < 14 * 86400"
    unfolding user_cmd_pipeline
    by (intro pipeline_batches [where out = out and finish = "\<lambda>st. case member_or member of
                     Inl err \<Rightarrow> (Raised err, [])
                   | Inr shown \<Rightarrow> (Returned,
                       [LogInfo (ReasonUser (user_name (ctx_author ctx))
                                  (user_id (ctx_author ctx)) (length (to_delete st)) shown uid
                                  (channel_name (ctx_channel ctx))),
                        delete_with (user_bot (bot_user e)) (to_delete st)])"])
       (simp_all add: deleted_batches_final deleted_batches_Nil split: sum.splits)
next
  assume "after_cmd e ctx message_id = Some (out, evs)"
  then show "\<forall>handed\<in>set (deleted_batches evs). \<forall>m\<in>set handed.
             default_check m
             \<and> created_at (ctx_message ctx) - created_at m < 14 * 86400"
    by (rule after_batches)
next
  assume "messages_cmd e ctx count = Some (out, evs)"
  then show "\<forall>handed\<in>set (deleted_batches evs). \<forall>m\<in>set handed.
             default_check m
             \<and> created_at (ctx_message ctx) - created_at m < 14 * 86400"
    unfolding messages_cmd_pipeline
    by (rule pipeline_batches) (simp add: deleted_batches_final)
next
  assume "cleanup_bot e ctx count = Some (out, evs)"
  then show "\<forall>handed\<in>set (deleted_batches evs). \<forall>m\<in>set handed.
             bot_check e ctx (server_prefixes e ctx) m
             \<and> created_at (ctx_message ctx) - created_at m < 14 * 86400"
    unfolding cleanup_bot_pipeline
    by (rule pipeline_batches) (simp add: deleted_batches_final)
next
  assume "cleanup_self e ctx count pat = Some (out, evs)"
    and "content_match e pat = Inr matches"
  then show "\<forall>handed\<in>set (deleted_batches evs). \<forall>m\<in>set handed.
             created_at (ctx_message ctx) - created_at m < 14 * 86400
             \<and> (self_check e matches m
                \<or> m = ctx_message ctx \<and> user_id (author m) = user_id (bot_user e))"
    by (rule self_batches)
qed

theorem batch_young_and_matching_witness:
  "get_messages_for_deletion self_trigger (ctx_channel self_ctx) 1
       (self_check ex_env (prefix ''ok'')) (Some 1000) (Some self_trigger) None
     = Some [mk_message 9 1 ''ok then'' 900]
   \<and> self_check ex_env (prefix ''ok'') (mk_message 9 1 ''ok then'' 900)
   \<and> created_at self_trigger - created_at (mk_message 9 1 ''ok then'' 900) < 14 * 86400
   \<and> text_cmd ex_env mod_ctx ''pong'' 5
     = Some (Returned,
         [History (Some 1000) (Some (ctx_message mod_ctx)) None,
          Iterated (mk_message 9 1 ''pong'' 900),
          Iterated (mk_message 8 2 ''!!ping'' 800),
          History (Some 1000) (Some (mk_message 8 2 ''!!ping'' 800)) None,
          LogInfo (ReasonText ''u'' 3 1 ''pong'' 1),
          SlowDeletion [mk_message 9 1 ''pong'' 900]])
   \<and> text_check mod_ctx ''pong'' (mk_message 9 1 ''pong'' 900)
   \<and> created_at (ctx_message mod_ctx) - created_at (mk_message 9 1 ''pong'' 900) < 14 * 86400
   \<and> user_cmd named_env mod_ctx ''someone'' 5
     = Some (Returned,
         [History (Some 1000) (Some (ctx_message mod_ctx)) None,
          Iterated (mk_message 9 1 ''pong'' 900),
          Iterated (mk_message 8 2 ''!!ping'' 800),
          History (Some 1000) (Some (mk_message 8 2 ''!!ping'' 800)) None,
          LogInfo (ReasonUser ''u'' 3 1 ''u'' 2 ''general''),
          SlowDeletion [mk_message 8 2 ''!!ping'' 800]])
   \<and> resolve_user named_env ''someone'' = Inr (Some (mk_user 2), 2)
   \<and> user_check mod_ctx 2 (mk_message 8 2 ''!!ping'' 800)
   \<and> created_at (ctx_message mod_ctx) - created_at (mk_message 8 2 ''!!ping'' 800) < 14 * 86400
   \<and> after_cmd bot_env mod_ctx 8
     = Some (Returned,
         [GetMessage 8,
          History None None (Some (mk_message 8 2 ''!!ping'' 800)),
          Iterated (mk_message 9 1 ''pong'' 900),
          LogInfo (ReasonAfter ''u'' 3 1 ''general''),
          MassPurge [mk_message 9 1 ''pong'' 900]])
   \<and> default_check (mk_message 9 1 ''pong'' 900)
   \<and> messages_cmd ex_env mod_ctx 5
     = Some (Returned,
         [History (Some 1000) (Some (ctx_message mod_ctx)) None,
          Iterated (mk_message 9 1 ''pong'' 900),
          Iterated (mk_message 8 2 ''!!ping'' 800),
          History (Some 1000) (Some (mk_message 8 2 ''!!ping'' 800)) None,
          LogInfo (ReasonMessages ''u'' 3 5 ''general''),
          SlowDeletion [mk_message 9 1 ''pong'' 900, mk_message 8 2 ''!!ping'' 800]])
   \<and> default_check (mk_message 8 2 ''!!ping'' 800)
   \<and> cleanup_bot ex_env mod_ctx 5
     = Some (Returned,
         [History (Some 1000) (Some (ctx_message mod_ctx)) None,
          Iterated (mk_message 9 1 ''pong'' 900),
          Iterated (mk_message 8 2 ''!!ping'' 800),
          History (Some 1000) (Some (mk_message 8 2 ''!!ping'' 800)) None,
          LogInfo (ReasonBot ''u'' 3 1 ''general''),
          SlowDeletion [mk_message 9 1 ''pong'' 900]])
   \<and> bot_check ex_env mod_ctx (server_prefixes ex_env mod_ctx) (mk_message 9 1 ''pong'' 900)
   \<and> cleanup_self ex_env self_ctx 1 (Some ''r(ok)'')
     = Some (Returned,
         [History (Some 1000) (Some self_trigger) None,
          Iterated (mk_message 9 1 ''ok then'' 900),
          Iterated (mk_message 8 2 ''ok'' 800),
          History (Some 1000) (Some (mk_message 8 2 ''ok'' 800)) None,
          LogInfo (ReasonSelf ''u'' 1 2 ''channel general''),
          SlowDeletion [mk_message 9 1 ''ok then'' 900, self_trigger]])
   \<and> content_match ex_env (Some ''r(ok)'') = Inr (prefix ''ok'')
   \<and> created_at (ctx_message self_ctx) - created_at (mk_message 9 1 ''ok then'' 900)
        < 14 * 86400
   \<and> created_at (ctx_message self_ctx) - created_at self_trigger < 14 * 86400
   \<and> self_trigger = ctx_message self_ctx
   \<and> user_id (author self_trigger) = user_id (bot_user ex_env)"
proof -
  let ?ok = "mk_message 9 1 ''ok then'' 900"
  let ?pong = "mk_message 9 1 ''pong'' 900" and ?ping = "mk_message 8 2 ''!!ping'' 800"
  note all = batch_young_and_matching
  have run: "get_messages_for_deletion self_trigger (ctx_channel self_ctx) 1
       (self_check ex_env (prefix ''ok'')) (Some 1000) (Some self_trigger) None = Some [?ok]"
    by (simp add: self_check_def run_defs ex_defs str_defs)
  have collected: "self_check ex_env (prefix ''ok'') ?ok
      \<and> created_at self_trigger - created_at ?ok < 14 * 86400"
    using all [THEN conjunct1, rule_format, OF run, of ?ok] by simp
  have texts: "text_check mod_ctx ''pong'' ?pong
      \<and> created_at (ctx_message mod_ctx) - created_at ?pong < 14 * 86400"
    using all [THEN conjunct2, THEN conjunct1, rule_format, OF text_run_example,
        of "[?pong]" ?pong]
    by (simp add: deleted_batches_def map_filter_def)
  have user: "user_check mod_ctx 2 ?ping
      \<and> created_at (ctx_message mod_ctx) - created_at ?ping < 14 * 86400"
    using all [THEN conjunct2, THEN conjunct2, THEN conjunct1, rule_format,
        OF conjI [OF named_run_example named_resolve_example], of "[?ping]" ?ping]
    by (simp add: deleted_batches_def map_filter_def)
  have after: "default_check ?pong
      \<and> created_at (ctx_message mod_ctx) - created_at ?pong < 14 * 86400"
    using all [THEN conjunct2, THEN conjunct2, THEN conjunct2, THEN conjunct1, rule_format,
        OF after_run_example, of "[?pong]" ?pong]
    by (simp add: deleted_batches_def map_filter_def)
  have every: "default_check ?ping
      \<and> created_at (ctx_message mod_ctx) - created_at ?ping < 14 * 86400"
    using all [THEN conjunct2, THEN conjunct2, THEN conjunct2, THEN conjunct2, THEN conjunct1,
        rule_format, OF all_run_example, of "[?pong, ?ping]" ?ping]
    by (simp add: deleted_batches_def map_filter_def)
  have bot: "bot_check ex_env mod_ctx (server_prefixes ex_env mod_ctx) ?pong
      \<and> created_at (ctx_message mod_ctx) - created_at ?pong < 14 * 86400"
    using all [THEN conjunct2, THEN conjunct2, THEN conjunct2, THEN conjunct2, THEN conjunct2,
        THEN conjunct1, rule_format, OF bot_run_example, of "[?pong]" ?pong]
    by (simp add: deleted_batches_def map_filter_def)
  note self = all [THEN conjunct2, THEN conjunct2, THEN conjunct2, THEN conjunct2,
        THEN conjunct2, THEN conjunct2, rule_format,
        OF conjI [OF self_run_example self_match_example]]
  have own: "created_at (ctx_message self_ctx) - created_at ?ok < 14 * 86400"
    using self [of "[?ok, self_trigger]" ?ok]
    by (simp add: deleted_batches_def map_filter_def)
  have trigger: "created_at (ctx_message self_ctx) - created_at self_trigger < 14 * 86400"
    using self [of "[?ok, self_trigger]" self_trigger]
    by (simp add: deleted_batches_def map_filter_def)
  have same: "self_trigger = ctx_message self_ctx"
    "user_id (author self_trigger) = user_id (bot_user ex_env)"
    by (simp_all add: ex_defs)
  from run collected texts user after every bot own trigger same
    text_run_example named_run_example named_resolve_example after_run_example
    all_run_example bot_run_example self_run_example self_match_example
  show ?thesis by simp
qed

text \<open>
  C3. When the loop is about to fetch a page, the page holds a message \<open>m\<close> that is 14
  days old or more, and the \<^verbatim>\<open>async for\<close> reaches \<open>m\<close> (it did not \<^verbatim>\<open>break\<close> on the
  messages \<open>pre\<close> in front of it), then the function returns at once: \<open>too_old\<close> is set,
  the trace ends with \<open>m\<close>, so that no message behind \<open>m\<close> on the page was bound and no
  further page was asked for, and what was appended comes from \<open>pre\<close> and is younger than
  14 days.
\<close>

theorem scan_stops_at_window:
  assumes enter: "\<not> too_old st" "int (length (to_delete st)) - 1 < number"
    and page: "history chan limit (before_cur st) after = pre @ m # rest"
    and old: "days (created_at cm - created_at m) \<ge> 14"
    and reached: "\<not> broke (scan_page cm number check pre (page_start limit after st))"
  shows "\<exists>r ys. collect_loop cm chan number check limit after st = Some r
           \<and> too_old r
           \<and> trace r = trace st @ History limit (before_cur st) after # map Iterated pre @ [Iterated m]
           \<and> to_delete r = to_delete st @ ys \<and> set ys \<subseteq> set pre
           \<and> (\<forall>x\<in>set ys. days (created_at cm - created_at x) < 14)"
proof -
  let ?s0 = "page_start limit after st"
  let ?s1 = "scan_page cm number check pre ?s0"
  let ?r = "?s1\<lparr>message_var := Some m, trace := trace ?s1 @ [Iterated m],
                too_old := True, broke := True\<rparr>"
  have scan: "scan_page cm number check (pre @ m # rest) ?s0 = ?r"
    using old by (simp add: scan_page_append [OF reached] Let_def)
  have loop: "collect_loop cm chan number check limit after st = Some (?r\<lparr>before_cur := Some m\<rparr>)"
    using enter page scan
    by (subst collect_loop_unfold, simp add: Let_def) (subst collect_loop_unfold, simp)
  from scan_page_to_delete [of cm number check pre ?s0]
  obtain ys where ys: "to_delete ?s1 = to_delete st @ ys" "set ys \<subseteq> set pre"
      "\<forall>x\<in>set ys. days (created_at cm - created_at x) < 14"
    by (auto simp: page_start_def)
  have tr: "trace ?s1 = trace st @ History limit (before_cur st) after # map Iterated pre"
    using scan_page_full_trace [OF reached] by (simp add: page_start_def)
  show ?thesis
    using loop ys tr by (intro exI [of _ "?r\<lparr>before_cur := Some m\<rparr>"] exI [of _ ys]) simp
qed



text \<open>
  The scenario of the specification: messages of age 1, 2, 3, 15 and 16 days, the text
  \<^verbatim>\<open>x\<close> in the first, the third and the two old ones, and a request for 10 messages.
\<close>

theorem scan_stops_at_window_witness:
  "\<not> too_old (init_state (Some window_trigger))
   \<and> int (length (to_delete (init_state (Some window_trigger)))) - 1 < 10
   \<and> history (ctx_channel window_ctx) (Some 1000) (before_cur (init_state (Some window_trigger))) None
       = window_recent @ window_old # [window_older]
   \<and> days (created_at window_trigger - created_at window_old) \<ge> 14
   \<and> \<not> broke (scan_page window_trigger 10 (text_check window_ctx ''x'') window_recent
               (page_start (Some 1000) None (init_state (Some window_trigger))))
   \<and> (\<exists>r ys. collect_loop window_trigger (ctx_channel window_ctx) 10 (text_check window_ctx ''x'')
                (Some 1000) None (init_state (Some window_trigger)) = Some r
           \<and> too_old r
           \<and> trace r = trace (init_state (Some window_trigger))
                @ History (Some 1000) (before_cur (init_state (Some window_trigger))) None
                  # map Iterated window_recent @ [Iterated window_old]
           \<and> to_delete r = to_delete (init_state (Some window_trigger)) @ ys
           \<and> set ys \<subseteq> set window_recent
           \<and> (\<forall>x\<in>set ys. days (created_at window_trigger - created_at x) < 14))"
proof -
  have h1: "\<not> too_old (init_state (Some window_trigger))"
    by (simp add: init_state_def)
  have h2: "int (length (to_delete (init_state (Some window_trigger)))) - 1 < 10"
    by (simp add: init_state_def)
  have h3: "history (ctx_channel window_ctx) (Some 1000)
       (before_cur (init_state (Some window_trigger))) None
       = window_recent @ window_old # [window_older]"
    by (simp add: init_state_def window_defs ex_defs)
  have h4: "days (created_at window_trigger - created_at window_old) \<ge> 14"
    by (simp add: window_defs ex_defs days_def)
  have h5: "\<not> broke (scan_page window_trigger 10 (text_check window_ctx ''x'') window_recent
               (page_start (Some 1000) None (init_state (Some window_trigger))))"
    by (simp add: init_state_def page_start_def text_check_def window_defs ex_defs days_def
          str_defs)
  from scan_stops_at_window [OF h1 h2 h3 h4 h5] h1 h2 h3 h4 h5 show ?thesis
    by blast
qed


text \<open>
  C4. The claim: with requested count 0 the function returns every qualifying message,
  page after page, for every page size. The \<^verbatim>\<open>while\<close> condition
  \<^verbatim>\<open>len(to_delete) - 1 < number\<close> is false for count 0 as soon as one message was
  appended, so no second page is fetched: with pages of one message and three
  qualifying messages in the channel only the first is returned.
\<close>

theorem collect_unbounded_stops_after_first_hit:
  "get_messages_for_deletion ex_trigger (list_channel ex_recent) 0 default_check (Some 1)
     (Some ex_trigger) None
   = Some [mk_message 9 2 ''a'' 900]"
  by (simp add: run_defs ex_defs)




text \<open>
  C6. When the account of the bot is not a bot account, \<^verbatim>\<open>after\<close> sends the notice and
  returns: no lookup of the message, no history call, no deletion.
\<close>

theorem after_refuses_user_accounts:
  "\<not> user_bot (bot_user e) \<Longrightarrow> after_cmd e ctx message_id = Some (Returned, [Send BotAccountsOnly])"
  by (simp add: after_cmd_def)

theorem after_refuses_user_accounts_witness:
  "\<not> user_bot (bot_user ex_env)
   \<and> after_cmd ex_env mod_ctx 8 = Some (Returned, [Send BotAccountsOnly])"
proof -
  have h: "\<not> user_bot (bot_user ex_env)" by (simp add: ex_defs)
  from after_refuses_user_accounts [OF h, of mod_ctx 8] h show ?thesis by simp
qed


text \<open>
  C7, as stated: the wait of \<^verbatim>\<open>check_100_plus\<close> is bounded and an absent reply counts
  as declined. \<^verbatim>\<open>wait_for\<close> is called without a timeout: in a chat where the actor never
  writes again the call never returns.
\<close>

theorem check_100_plus_never_times_out:
  "check_100_plus ex_env self_ctx 150 = None"
proof -
  have "\<forall>k. \<not> author_check self_ctx (inbox ex_env k)"
    by (simp add: author_check_def ctx_author_def ex_defs)
  then have "wait_for (author_check self_ctx) (inbox ex_env) 0 = None"
    by (simp add: wait_for_none_iff)
  then show ?thesis by (simp add: check_100_plus_def)
qed


text \<open>
  C7, amended: \<^verbatim>\<open>check_100_plus\<close> returns exactly when a message of the actor arrives
  after the prompt; it then answers by the first such message, true when its content
  starts with \<open>y\<close> in lower case, and false after sending \<^verbatim>\<open>Cancelled.\<close> otherwise.
  Without such a message it waits for ever.
\<close>

theorem check_100_plus_waits_for_answer:
  "(check_100_plus e ctx number = None \<longleftrightarrow> (\<forall>n. \<not> author_check ctx (inbox e n)))
   \<and> (author_check ctx (inbox e k) \<and> (\<forall>j<k. \<not> author_check ctx (inbox e j))
        \<longrightarrow> check_100_plus e ctx number =
            (if prefix ''y'' (lower (content (inbox e k)))
             then Some (True, [Send (AreYouSure number), WaitFor])
             else Some (False, [Send (AreYouSure number), WaitFor, Send Cancelled])))"
proof (intro conjI impI)
  show "check_100_plus e ctx number = None \<longleftrightarrow> (\<forall>n. \<not> author_check ctx (inbox e n))"
    using wait_for_none_iff [of "author_check ctx" "inbox e"]
    by (cases "wait_for (author_check ctx) (inbox e) 0") (auto simp: check_100_plus_def)
next
  assume "author_check ctx (inbox e k) \<and> (\<forall>j<k. \<not> author_check ctx (inbox e j))"
  then have "wait_for (author_check ctx) (inbox e) 0 = Some (inbox e k)"
    by (intro wait_for_first) auto
  then show "check_100_plus e ctx number =
            (if prefix ''y'' (lower (content (inbox e k)))
             then Some (True, [Send (AreYouSure number), WaitFor])
             else Some (False, [Send (AreYouSure number), WaitFor, Send Cancelled]))"
    by (simp add: check_100_plus_def)
qed

theorem check_100_plus_waits_for_answer_witness:
  "(check_100_plus (ex_env\<lparr>inbox := answering_inbox ''Yes''\<rparr>) self_ctx 150 \<noteq> None)
   \<and> author_check self_ctx (answering_inbox ''Yes'' 2)
   \<and> \<not> author_check self_ctx (answering_inbox ''Yes'' 0)
   \<and> \<not> author_check self_ctx (answering_inbox ''Yes'' 1)
   \<and> check_100_plus (ex_env\<lparr>inbox := answering_inbox ''Yes''\<rparr>) self_ctx 150
        = Some (True, [Send (AreYouSure 150), WaitFor])"
proof -
  have a: "author_check self_ctx (inbox (ex_env\<lparr>inbox := answering_inbox ''Yes''\<rparr>) 2)"
    by (simp add: author_check_def ctx_author_def ex_defs)
  have b: "\<forall>j<2. \<not> author_check self_ctx (inbox (ex_env\<lparr>inbox := answering_inbox ''Yes''\<rparr>) j)"
    by (simp add: author_check_def ctx_author_def ex_defs)
  have c: "prefix ''y'' (lower (content (inbox (ex_env\<lparr>inbox := answering_inbox ''Yes''\<rparr>) 2)))"
    by (simp add: ex_defs lower_Yes)
  from check_100_plus_waits_for_answer
         [of "ex_env\<lparr>inbox := answering_inbox ''Yes''\<rparr>" self_ctx 150 2] a b c
  show ?thesis by auto
qed


text \<open>
  C8, as stated: every predicate is true on the trigger message. The predicate of
  \<^verbatim>\<open>self\<close> is false on it when a moderator, not the bot, wrote the command.
\<close>

theorem self_check_rejects_trigger:
  "content_match ex_env None = Inr match_all
   \<and> \<not> self_check ex_env match_all (ctx_message mod_ctx)"
  by (simp add: content_match_def use_re_def self_check_def ex_defs)


text \<open>
  C8, amended: the predicates of \<^verbatim>\<open>text\<close>, \<^verbatim>\<open>user\<close> and \<^verbatim>\<open>bot\<close> and the default
  predicate of \<^verbatim>\<open>messages\<close> and \<^verbatim>\<open>after\<close> are true on the trigger message, for
  every argument; the predicate of \<^verbatim>\<open>self\<close> is true on it exactly when the bot's own
  account wrote it and its content passes the content test.
\<close>

theorem trigger_admitted:
  "text_check ctx pattern (ctx_message ctx)
   \<and> user_check ctx uid (ctx_message ctx)
   \<and> bot_check e ctx pfxs (ctx_message ctx)
   \<and> default_check (ctx_message ctx)
   \<and> (self_check e matches (ctx_message ctx)
        \<longleftrightarrow> user_id (author (ctx_message ctx)) = user_id (bot_user e)
            \<and> matches (content (ctx_message ctx)))"
  by (simp add: text_check_def user_check_def bot_check_def default_check_def self_check_def)

theorem trigger_admitted_witness:
  "text_check mod_ctx ''zzz'' (ctx_message mod_ctx)
   \<and> user_check mod_ctx 42 (ctx_message mod_ctx)
   \<and> bot_check ex_env mod_ctx [''!'', ''!!''] (ctx_message mod_ctx)
   \<and> default_check (ctx_message mod_ctx)
   \<and> \<not> self_check ex_env match_all (ctx_message mod_ctx)
   \<and> self_check ex_env match_all (ctx_message self_ctx)"
  using trigger_admitted [of mod_ctx "''zzz''" 42 ex_env "[''!'', ''!!'']" match_all]
    trigger_admitted [of self_ctx "''zzz''" 42 ex_env "[''!'', ''!!'']" match_all]
  by (simp add: ex_defs match_all_def)


text \<open>
  C9, as stated: of several registered prefixes that the content starts with, the
  longest is stripped. The code takes the first in the order of the list: with the
  prefixes \<^verbatim>\<open>!\<close> and \<^verbatim>\<open>!!\<close> in this order, \<^verbatim>\<open>!!ping\<close> is read as the unknown command
  \<^verbatim>\<open>!ping\<close> and the message is not matched.
\<close>

theorem first_listed_prefix_wins:
  "server_prefixes ex_env mod_ctx = [''!'', ''!!'']
   \<and> find_prefix [''!'', ''!!''] (mk_message 8 2 ''!!ping'' 800) = Some ''!''
   \<and> prefix ''!!'' (content (mk_message 8 2 ''!!ping'' 800))
   \<and> cmd_name ''!'' (mk_message 8 2 ''!!ping'' 800) = ''!ping''
   \<and> cmd_name ''!!'' (mk_message 8 2 ''!!ping'' 800) = ''ping''
   \<and> get_command ex_env ''ping''
   \<and> \<not> bot_check ex_env mod_ctx [''!'', ''!!''] (mk_message 8 2 ''!!ping'' 800)"
  by (simp add: server_prefixes_def find_prefix_def cmd_name_def bot_check_def ex_defs)


text \<open>
  C9, amended: the prefixes the predicate of \<^verbatim>\<open>bot\<close> works with are those
  \<^verbatim>\<open>get_prefix\<close> answers, without the first empty one. On a message that is neither
  written by the bot nor the trigger message, the predicate is true exactly when some
  prefix of the list starts the content, the first such prefix in the order of the list
  is not empty, and what follows it up to the first blank is the name of a command:
  the first listed prefix is the one stripped. When the list is ordered by decreasing
  length, that prefix is the longest one that starts the content.
\<close>

theorem bot_check_strips_first_listed:
  "server_prefixes e ctx
     = remove1 [] (case get_prefix e (ctx_message ctx) of PrefixStr s \<Rightarrow> [s] | PrefixList ps \<Rightarrow> ps)
   \<and> (user_id (author m) \<noteq> user_id (bot_user e) \<and> m \<noteq> ctx_message ctx \<longrightarrow>
        (bot_check e ctx pfxs m \<longleftrightarrow>
           (\<exists>i<length pfxs. prefix (pfxs ! i) (content m)
              \<and> (\<forall>j<i. \<not> prefix (pfxs ! j) (content m))
              \<and> pfxs ! i \<noteq> []
              \<and> get_command e
                   (takeWhile (\<lambda>c. c \<noteq> CHR '' '') (drop (length (pfxs ! i)) (content m))))))
   \<and> (user_id (author m) \<noteq> user_id (bot_user e) \<and> m \<noteq> ctx_message ctx
        \<and> sorted_wrt (\<lambda>a b. length b \<le> length a) pfxs \<longrightarrow>
        (bot_check e ctx pfxs m \<longleftrightarrow>
           (\<exists>p\<in>set pfxs. prefix p (content m)
              \<and> (\<forall>q\<in>set pfxs. prefix q (content m) \<longrightarrow> length q \<le> length p)
              \<and> p \<noteq> []
              \<and> get_command e
                   (takeWhile (\<lambda>c. c \<noteq> CHR '' '') (drop (length p) (content m))))))"
proof (intro conjI impI; (elim conjE)?)
  show "server_prefixes e ctx
     = remove1 [] (case get_prefix e (ctx_message ctx) of PrefixStr s \<Rightarrow> [s] | PrefixList ps \<Rightarrow> ps)"
    by (rule server_prefixes_remove)
next
  assume other: "user_id (author m) \<noteq> user_id (bot_user e)" "m \<noteq> ctx_message ctx"
  show "bot_check e ctx pfxs m \<longleftrightarrow>
           (\<exists>i<length pfxs. prefix (pfxs ! i) (content m)
              \<and> (\<forall>j<i. \<not> prefix (pfxs ! j) (content m))
              \<and> pfxs ! i \<noteq> []
              \<and> get_command e
                   (takeWhile (\<lambda>c. c \<noteq> CHR '' '') (drop (length (pfxs ! i)) (content m))))"
    (is "?lhs \<longleftrightarrow> ?rhs")
  proof
    assume ?lhs
    with other obtain p where p: "find_prefix pfxs m = Some p" "p \<noteq> []"
        "get_command e (cmd_name p m)"
      by (auto simp: bot_check_def split: option.splits if_splits)
    from p(1) obtain i where "i < length pfxs" "pfxs ! i = p" "prefix p (content m)"
        "\<forall>j<i. \<not> prefix (pfxs ! j) (content m)"
      by (auto simp: find_prefix_def find_Some_iff)
    with p show ?rhs by (auto simp: cmd_name_def)
  next
    assume ?rhs
    then obtain i where i: "i < length pfxs" "prefix (pfxs ! i) (content m)"
        "\<forall>j<i. \<not> prefix (pfxs ! j) (content m)" "pfxs ! i \<noteq> []"
        "get_command e (cmd_name (pfxs ! i) m)"
      by (auto simp: cmd_name_def)
    then have "find_prefix pfxs m = Some (pfxs ! i)"
      by (auto simp: find_prefix_def find_Some_iff)
    with other i show ?lhs by (simp add: bot_check_def)
  qed
next
  assume other: "user_id (author m) \<noteq> user_id (bot_user e)" "m \<noteq> ctx_message ctx"
    and srt: "sorted_wrt (\<lambda>a b. length b \<le> length a) pfxs"
  show "bot_check e ctx pfxs m \<longleftrightarrow>
           (\<exists>p\<in>set pfxs. prefix p (content m)
              \<and> (\<forall>q\<in>set pfxs. prefix q (content m) \<longrightarrow> length q \<le> length p)
              \<and> p \<noteq> []
              \<and> get_command e
                   (takeWhile (\<lambda>c. c \<noteq> CHR '' '') (drop (length p) (content m))))"
    (is "?lhs \<longleftrightarrow> ?rhs")
  proof
    assume ?lhs
    with other obtain p where p: "find_prefix pfxs m = Some p" "p \<noteq> []"
        "get_command e (cmd_name p m)"
      by (auto simp: bot_check_def split: option.splits if_splits)
    from find_prefix_first [OF p(1)] srt
    have "p \<in> set pfxs" "prefix p (content m)"
        "\<forall>q\<in>set pfxs. prefix q (content m) \<longrightarrow> length q \<le> length p"
      by auto
    with p show ?rhs by (auto simp: cmd_name_def)
  next
    assume ?rhs
    then obtain p where p: "p \<in> set pfxs" "prefix p (content m)"
        "\<forall>q\<in>set pfxs. prefix q (content m) \<longrightarrow> length q \<le> length p" "p \<noteq> []"
        "get_command e (cmd_name p m)"
      by (auto simp: cmd_name_def)
    from p(1,2) obtain p' where p': "find_prefix pfxs m = Some p'"
      by (cases "find_prefix pfxs m") (auto simp: find_prefix_def find_None_iff)
    from find_prefix_first [OF p'] srt
    have f: "p' \<in> set pfxs" "prefix p' (content m)"
        "\<forall>q\<in>set pfxs. prefix q (content m) \<longrightarrow> length q \<le> length p'"
      by auto
    from p f have "length p = length p'" by (auto intro: le_antisym)
    with p(2) f(2) have "p = p'" by (rule same_length_prefixes)
    with other p p' show ?lhs by (simp add: bot_check_def)
  qed
qed

theorem bot_check_strips_first_listed_witness:
  "user_id (author (mk_message 8 2 ''!!ping'' 800)) \<noteq> user_id (bot_user sorted_env)
   \<and> mk_message 8 2 ''!!ping'' 800 \<noteq> ctx_message mod_ctx
   \<and> sorted_wrt (\<lambda>a b. length b \<le> length a) (server_prefixes sorted_env mod_ctx)
   \<and> server_prefixes sorted_env mod_ctx = remove1 [] ['''', ''!!'', ''!'']
   \<and> bot_check sorted_env mod_ctx (server_prefixes sorted_env mod_ctx)
        (mk_message 8 2 ''!!ping'' 800)
   \<and> (\<exists>p\<in>set (server_prefixes sorted_env mod_ctx).
         prefix p (content (mk_message 8 2 ''!!ping'' 800))
         \<and> (\<forall>q\<in>set (server_prefixes sorted_env mod_ctx).
               prefix q (content (mk_message 8 2 ''!!ping'' 800)) \<longrightarrow> length q \<le> length p)
         \<and> p \<noteq> []
         \<and> get_command sorted_env
              (takeWhile (\<lambda>c. c \<noteq> CHR '' '')
                 (drop (length p) (content (mk_message 8 2 ''!!ping'' 800)))))"
proof -
  let ?m = "mk_message 8 2 ''!!ping'' 800"
  have h1: "user_id (author ?m) \<noteq> user_id (bot_user sorted_env)"
    by (simp add: ex_defs)
  have h2: "?m \<noteq> ctx_message mod_ctx" by (simp add: ex_defs)
  have h3: "sorted_wrt (\<lambda>a b. length b \<le> length a) (server_prefixes sorted_env mod_ctx)"
    by (simp add: sorted_prefixes_example)
  have raw: "(case get_prefix sorted_env (ctx_message mod_ctx) of
               PrefixStr s \<Rightarrow> [s] | PrefixList ps \<Rightarrow> ps) = ['''', ''!!'', ''!'']"
    by (simp add: ex_defs)
  have run: "bot_check sorted_env mod_ctx (server_prefixes sorted_env mod_ctx) ?m"
    by (subst sorted_prefixes_example)
       (simp add: bot_check_def find_prefix_def cmd_name_def ex_defs)
  note inst = bot_check_strips_first_listed
      [of sorted_env mod_ctx ?m "server_prefixes sorted_env mod_ctx"]
  from inst h1 h2 h3 run
  have "\<exists>p\<in>set (server_prefixes sorted_env mod_ctx).
         prefix p (content ?m)
         \<and> (\<forall>q\<in>set (server_prefixes sorted_env mod_ctx).
               prefix q (content ?m) \<longrightarrow> length q \<le> length p)
         \<and> p \<noteq> []
         \<and> get_command sorted_env
              (takeWhile (\<lambda>c. c \<noteq> CHR '' '') (drop (length p) (content ?m)))"
    by blast
  moreover from inst raw
  have "server_prefixes sorted_env mod_ctx = remove1 [] ['''', ''!!'', ''!'']"
    by simp
  ultimately show ?thesis using h1 h2 h3 run by blast
qed

text \<open>
  C10. When the user argument names no member but reads as an integer, and the prompt
  (if any) is passed and the collection returns, \<^verbatim>\<open>user\<close> raises at the read of the
  unbound local \<open>member\<close>, after the collection and before the audit line and the
  deletion: no batch reaches an executor.
\<close>

theorem user_unbound_member_raises:
  assumes "member_convert e usr = None" and "py_int e usr = Some i"
    and "confirm e ctx number = Some (True, ev)"
    and "collect_run (ctx_message ctx) (ctx_channel ctx) number (user_check ctx i)
           (Some 1000) (Some (ctx_message ctx)) None = Some st"
  shows "user_cmd e ctx usr number = Some (Raised NameError, ev @ trace st)
       \<and> deleted_batches (ev @ trace st) = []"
proof -
  have "user_cmd e ctx usr number = Some (Raised NameError, ev @ trace st)"
    using assms by (simp add: user_cmd_def resolve_user_def member_or_def Let_def)
  moreover have "deleted_batches (ev @ trace st) = []"
    using confirm_no_batches [OF assms(3)] deleted_batches_scan [OF collect_run_trace [OF assms(4)]]
    by (simp add: deleted_batches_append)
  ultimately show ?thesis by simp
qed

theorem user_unbound_member_raises_witness:
  "member_convert ex_env ''42'' = None \<and> py_int ex_env ''42'' = Some 42
   \<and> confirm ex_env mod_ctx 2 = Some (True, [])
   \<and> user_cmd ex_env mod_ctx ''42'' 2
       = Some (Raised NameError,
           [History (Some 1000) (Some (ctx_message mod_ctx)) None,
            Iterated (mk_message 9 1 ''pong'' 900),
            Iterated (mk_message 8 2 ''!!ping'' 800),
            History (Some 1000) (Some (mk_message 8 2 ''!!ping'' 800)) None])"
proof -
  have h1: "member_convert ex_env ''42'' = None" by (simp add: ex_defs)
  have h2: "py_int ex_env ''42'' = Some 42" by (simp add: ex_defs)
  have h3: "confirm ex_env mod_ctx 2 = Some (True, [])" by (simp add: confirm_def)
  from user_unbound_member_raises [OF h1 h2 h3 user_run_example] h1 h2 h3
  show ?thesis by simp
qed


end
